theory Spec2Isabelle
  imports Main
begin

section \<open>Errors\<close>

text \<open>
  What the program throws, or rejects a promise with:
  \<^item> \<^verbatim>\<open>VError\<close> objects carrying a message (\<open>VError\<close>, \<open>VErrorFormatted\<close>, see below);
  \<^item> the \<^verbatim>\<open>TypeError\<close> of the JavaScript runtime for a call on a value that is not a
    function;
  \<^item> the \<^verbatim>\<open>ReferenceError\<close> of the runtime for a name that is bound nowhere;
  \<^item> the errors of the ethers libraries (\<^verbatim>\<open>@ethersproject/bignumber\<close>,
    \<^verbatim>\<open>@ethersproject/abi\<close>), with their reason;
  \<^item> the failures of the remote provider, which the program never inspects: it only
    lets them propagate.
\<close>

datatype error =
    VError string
  | VErrorFormatted string
  | TypeError string
  | ReferenceError string
  | EthersError string
  | ExternalQueryError string

text \<open>
  \<^verbatim>\<open>new VError(message)\<close> reads its argument as a \<^verbatim>\<open>printf\<close> format without arguments.  A
  message without \<^verbatim>\<open>%\<close> is the message of the error.  What the library makes of a message
  with \<^verbatim>\<open>%\<close> in it (another message, or an error for a missing argument) is kept
  symbolic.
\<close>

definition new_VError :: "string \<Rightarrow> error" where
  "new_VError message =
     (if CHR ''%'' \<in> set message then VErrorFormatted message else VError message)"

section \<open>Lock (src/utils/lock.ts)\<close>

text \<open>
  A \<^verbatim>\<open>Lock\<close> object has the two private fields \<^verbatim>\<open>waiters\<close> and \<^verbatim>\<open>mLocked\<close>.  The array
  \<^verbatim>\<open>waiters\<close> holds the \<^verbatim>\<open>resolve\<close> callbacks of the promises handed out by \<^verbatim>\<open>acquire\<close>
  while the lock was taken; a callback is represented by the identity \<open>'w\<close> of the call
  that is suspended on that promise.
\<close>

record 'w Lock =
  waiters :: "'w list"
  mLocked :: bool

definition new_Lock :: "'w Lock" where
  "new_Lock = \<lparr>waiters = [], mLocked = False\<rparr>"

definition locked :: "'w Lock \<Rightarrow> bool" where
  "locked l = mLocked l"

text \<open>
  The promise returned by \<^verbatim>\<open>acquire\<close>: already resolved, or pending until the queued
  \<^verbatim>\<open>resolve\<close> callback is called by a later \<^verbatim>\<open>release\<close>.  (\<open>Rejected\<close> is produced by
  \<^verbatim>\<open>LockManager.acquire\<close> only.)
\<close>

datatype acquired = Resolved | Pending | Rejected error

definition Lock_acquire :: "'w \<Rightarrow> 'w Lock \<Rightarrow> acquired \<times> 'w Lock" where
  "Lock_acquire w l =
     (if \<not> mLocked l then (Resolved, l\<lparr>mLocked := True\<rparr>)
      else (Pending, l\<lparr>waiters := waiters l @ [w]\<rparr>))"

text \<open>
  \<^verbatim>\<open>release\<close> returns nothing; what it does to the outside is to call at most one
  \<^verbatim>\<open>resolve\<close> callback.  The model returns the waiter whose callback was called.
\<close>

definition Lock_release :: "'w Lock \<Rightarrow> (error + 'w option) \<times> 'w Lock" where
  "Lock_release l =
     (if \<not> mLocked l then (Inl (VError ''Tried to release a Lock that was not locked''), l)
      else if length (waiters l) > 0
        then (Inr (Some (hd (waiters l))), l\<lparr>waiters := tl (waiters l)\<rparr>)
        else (Inr None, l\<lparr>mLocked := False\<rparr>))"

text \<open>
  The values the \<^verbatim>\<open>Lock\<close> object takes during one call of \<^verbatim>\<open>release\<close>: the value on entry,
  followed by the value after each statement that writes a field (\<^verbatim>\<open>waiters.shift()\<close> in
  the first branch, \<^verbatim>\<open>mLocked = false\<close> in the second).  Calling \<^verbatim>\<open>resolve()\<close> writes no
  field of the lock: the resumed caller runs in a later job.
\<close>

definition Lock_release_states :: "'w Lock \<Rightarrow> 'w Lock list" where
  "Lock_release_states l =
     (if \<not> mLocked l then [l]
      else if length (waiters l) > 0 then [l, l\<lparr>waiters := tl (waiters l)\<rparr>]
      else [l, l\<lparr>mLocked := False\<rparr>])"

subsection \<open>Sequences of calls on one lock\<close>

datatype 'w lock_op = Acquire 'w | Release

datatype 'w lock_event = Entered 'w | Enqueued 'w | Resumed 'w | Unlocked | Failed error

fun lock_step :: "'w lock_op \<Rightarrow> 'w Lock \<Rightarrow> 'w lock_event \<times> 'w Lock" where
  "lock_step (Acquire w) l =
     (case Lock_acquire w l of
        (Resolved, l') \<Rightarrow> (Entered w, l')
      | (Pending, l') \<Rightarrow> (Enqueued w, l')
      | (Rejected e, l') \<Rightarrow> (Failed e, l'))"
| "lock_step Release l =
     (case Lock_release l of
        (Inl e, l') \<Rightarrow> (Failed e, l')
      | (Inr (Some w), l') \<Rightarrow> (Resumed w, l')
      | (Inr None, l') \<Rightarrow> (Unlocked, l'))"

fun lock_run :: "'w lock_op list \<Rightarrow> 'w Lock \<Rightarrow> 'w lock_event list \<times> 'w Lock" where
  "lock_run [] l = ([], l)"
| "lock_run (x # xs) l =
     (let (e, l') = lock_step x l; (es, l'') = lock_run xs l' in (e # es, l''))"

fun resumed :: "'w lock_event list \<Rightarrow> 'w list" where
  "resumed [] = []"
| "resumed (Resumed w # es) = w # resumed es"
| "resumed (_ # es) = resumed es"

fun enqueued :: "'w lock_event list \<Rightarrow> 'w list" where
  "enqueued [] = []"
| "enqueued (Enqueued w # es) = w # enqueued es"
| "enqueued (_ # es) = enqueued es"


section \<open>LockManager (src/utils/lock.ts)\<close>

text \<open>
  The field \<^verbatim>\<open>locks\<close> is an object literal \<^verbatim>\<open>{}\<close> used as a dictionary from keys to
  \<^verbatim>\<open>Lock\<close> objects.  Its own properties are a partial map.  The expression
  \<^verbatim>\<open>this.locks[key]\<close> is a JavaScript property read: when the object has no own
  property \<^verbatim>\<open>key\<close>, the read continues in the prototype of the literal,
  \<^verbatim>\<open>Object.prototype\<close>, whose members (ECMAScript, including Annex B) are listed below.
  All of them are functions or objects, so they are truthy, and none of them has a
  member \<^verbatim>\<open>acquire\<close>, \<^verbatim>\<open>release\<close> or \<^verbatim>\<open>locked\<close>.
\<close>

record 'w LockManager =
  locks :: "string \<rightharpoonup> 'w Lock"

definition new_LockManager :: "'w LockManager" where
  "new_LockManager = \<lparr>locks = Map.empty\<rparr>"

definition Object_prototype_names :: "string list" where
  "Object_prototype_names =
     [''constructor'', ''__defineGetter__'', ''__defineSetter__'', ''hasOwnProperty'',
      ''__lookupGetter__'', ''__lookupSetter__'', ''isPrototypeOf'',
      ''propertyIsEnumerable'', ''toString'', ''valueOf'', ''__proto__'',
      ''toLocaleString'']"

datatype 'w property = Undefined | OwnLock "'w Lock" | Inherited

definition locks_get :: "'w LockManager \<Rightarrow> string \<Rightarrow> 'w property" where
  "locks_get m key =
     (case locks m key of
        Some l \<Rightarrow> OwnLock l
      | None \<Rightarrow> if key \<in> set Object_prototype_names then Inherited else Undefined)"

text \<open>
  \<^verbatim>\<open>acquire\<close> is an \<^verbatim>\<open>async\<close> function: its body runs synchronously up to the \<^verbatim>\<open>await\<close>,
  whose operand \<^verbatim>\<open>this.locks[key].acquire()\<close> has been evaluated by then.  An exception in
  that part rejects the promise that \<^verbatim>\<open>acquire\<close> returns.
\<close>

definition LockManager_acquire ::
  "string \<Rightarrow> 'w \<Rightarrow> 'w LockManager \<Rightarrow> acquired \<times> 'w LockManager" where
  "LockManager_acquire key w m =
     (let m1 = (case locks_get m key of
                  Undefined \<Rightarrow> m\<lparr>locks := (locks m)(key \<mapsto> new_Lock)\<rparr>
                | _ \<Rightarrow> m)
      in case locks_get m1 key of
           OwnLock l \<Rightarrow>
             (let (r, l') = Lock_acquire w l in (r, m1\<lparr>locks := (locks m1)(key \<mapsto> l')\<rparr>))
         | Inherited \<Rightarrow>
             (Rejected (TypeError ''this.locks[key].acquire is not a function''), m1)
         | Undefined \<Rightarrow>
             (Rejected (TypeError ''Cannot read properties of undefined''), m1))"

definition LockManager_release ::
  "string \<Rightarrow> 'w LockManager \<Rightarrow> (error + 'w option) \<times> 'w LockManager" where
  "LockManager_release key m =
     (case locks_get m key of
        Undefined \<Rightarrow> (Inl (new_VError (''There is no lock for key '' @ key)), m)
      | Inherited \<Rightarrow> (Inl (TypeError ''this.locks[key].release is not a function''), m)
      | OwnLock l \<Rightarrow>
          (case Lock_release l of
             (Inl e, l') \<Rightarrow> (Inl e, m\<lparr>locks := (locks m)(key \<mapsto> l')\<rparr>)
           | (Inr r, l') \<Rightarrow>
               (Inr r, if \<not> locked l' then m\<lparr>locks := (locks m)(key := None)\<rparr>
                       else m\<lparr>locks := (locks m)(key \<mapsto> l')\<rparr>)))"

text \<open>
  \<^verbatim>\<open>withLock\<close>.  The \<^verbatim>\<open>finally\<close> block calls \<^verbatim>\<open>release\<close>; an exception thrown there
  replaces the completion of the \<^verbatim>\<open>try\<close> block, otherwise that completion stands.
  \<open>func\<close> is the callback: it returns a value or an error, and while it is pending the
  registry may change (through the callback itself or through other callers), so it is a
  function on the registry.
\<close>

definition withLock_finally ::
  "string \<Rightarrow> error + 'a \<Rightarrow> 'w LockManager \<Rightarrow> (error + 'a) \<times> 'w LockManager" where
  "withLock_finally key r m =
     (case LockManager_release key m of
        (Inl e, m') \<Rightarrow> (Inl e, m')
      | (Inr _, m') \<Rightarrow> (r, m'))"

text \<open>The part of \<^verbatim>\<open>withLock\<close> that runs once the promise of \<^verbatim>\<open>acquire\<close> is resolved.\<close>

definition withLock_resume ::
  "string \<Rightarrow> ('w LockManager \<Rightarrow> (error + 'a) \<times> 'w LockManager) \<Rightarrow> 'w LockManager
     \<Rightarrow> (error + 'a) \<times> 'w LockManager" where
  "withLock_resume key func m = (let (r, m') = func m in withLock_finally key r m')"

datatype 'a outcome = Settled "error + 'a" | Suspended

text \<open>
  One call of \<^verbatim>\<open>withLock\<close> by the caller \<open>w\<close>, run as far as it gets without another
  caller releasing: when \<^verbatim>\<open>acquire\<close> leaves its promise pending the call is suspended, and
  \<open>withLock_resume\<close> is what it does once a \<^verbatim>\<open>release\<close> has resumed \<open>w\<close>.
\<close>

definition withLock ::
  "string \<Rightarrow> 'w \<Rightarrow> ('w LockManager \<Rightarrow> (error + 'a) \<times> 'w LockManager) \<Rightarrow> 'w LockManager
     \<Rightarrow> 'a outcome \<times> 'w LockManager" where
  "withLock key w func m =
     (case LockManager_acquire key w m of
        (Resolved, m1) \<Rightarrow> (let (r, m2) = withLock_resume key func m1 in (Settled r, m2))
      | (Rejected e, m1) \<Rightarrow> (let (r, m2) = withLock_finally key (Inl e) m1 in (Settled r, m2))
      | (Pending, m1) \<Rightarrow> (Suspended, m1))"

subsection \<open>Sequences of calls on one registry\<close>

text \<open>
  What the callers know of every key, from what their calls returned and nothing else.  A
  key is held from the moment an \<^verbatim>\<open>acquire\<close> of it resolves at once; a \<^verbatim>\<open>release\<close> that
  resumes a waiter hands the key to that waiter, so the key stays held; it stops being
  held when a \<^verbatim>\<open>release\<close> of it resumes nobody.  A caller is queued on a key from the
  moment its \<^verbatim>\<open>acquire\<close> is left pending until a \<^verbatim>\<open>release\<close> resumes it.  Calls that
  fail change nothing.
\<close>

record 'w usage =
  held :: "string set"
  queued :: "string \<Rightarrow> 'w list"

definition no_usage :: "'w usage" where
  "no_usage = \<lparr>held = {}, queued = (\<lambda>_. [])\<rparr>"

datatype 'w manager_op = AcquireKey string 'w | ReleaseKey string

fun manager_step ::
  "'w manager_op \<Rightarrow> 'w LockManager \<times> 'w usage \<Rightarrow> 'w LockManager \<times> 'w usage" where
  "manager_step (AcquireKey key w) (m, u) =
     (case LockManager_acquire key w m of
        (Resolved, m') \<Rightarrow> (m', u\<lparr>held := insert key (held u)\<rparr>)
      | (Pending, m') \<Rightarrow> (m', u\<lparr>queued := (queued u)(key := queued u key @ [w])\<rparr>)
      | (Rejected e, m') \<Rightarrow> (m', u))"
| "manager_step (ReleaseKey key) (m, u) =
     (case LockManager_release key m of
        (Inl e, m') \<Rightarrow> (m', u)
      | (Inr None, m') \<Rightarrow> (m', u\<lparr>held := held u - {key}\<rparr>)
      | (Inr (Some w), m') \<Rightarrow>
          (m', u\<lparr>queued := (queued u)(key := remove1 w (queued u key))\<rparr>))"

fun manager_run ::
  "'w manager_op list \<Rightarrow> 'w LockManager \<times> 'w usage \<Rightarrow> 'w LockManager \<times> 'w usage" where
  "manager_run [] mu = mu"
| "manager_run (x # xs) mu = manager_run xs (manager_step x mu)"

text \<open>
  The registry agrees with what the callers know: it stores a lock for exactly the keys
  that are held, that lock is locked and its queue is the queue of the key, and nobody
  is queued on a key that is not held.
\<close>

definition agrees :: "'w LockManager \<Rightarrow> 'w usage \<Rightarrow> bool" where
  "agrees m u =
     (\<forall>key. locks m key =
              (if key \<in> held u then Some \<lparr>waiters = queued u key, mLocked = True\<rparr> else None) \<and>
            (key \<notin> held u \<longrightarrow> queued u key = []))"

section \<open>ReplayGuard and MultiSigReplayProtection (src/module/MultiSigNonce.ts)\<close>

text \<open>
  The provider is outside the repository.  What \<^verbatim>\<open>signer.provider.getCode(address)\<close>
  answers is a parameter of the model: the query fails, or yields the code as a string.

  The classes \<^verbatim>\<open>GnosisSafeFactory\<close> and \<^verbatim>\<open>ReplayProtectionFactory\<close> are bound nowhere: the two
  \<^verbatim>\<open>import\<close> lines that would bind them are commented out, and the uses stand under
  \<^verbatim>\<open>@ts-expect-error\<close>.  Evaluating \<^verbatim>\<open>new GnosisSafeFactory(this.signer)\<close> or
  \<^verbatim>\<open>new ReplayProtectionFactory(this.signer)\<close> therefore throws a \<^verbatim>\<open>ReferenceError\<close>, before
  any contract is attached or called.

  \<^verbatim>\<open>new BigNumber("0")\<close>, also under \<^verbatim>\<open>@ts-expect-error\<close>, calls the constructor of
  \<^verbatim>\<open>BigNumber\<close> directly, which the constructor refuses with an error.
\<close>

record replies =
  getCode :: "string \<Rightarrow> error + string"

record ReplayGuard =
  forwarderAddress :: string
  address :: string

text \<open>
  \<^verbatim>\<open>accessNonceStore\<close>.  After the code has arrived, the branch for empty code fails in
  \<^verbatim>\<open>new BigNumber("0")\<close> and the other branch fails in \<^verbatim>\<open>new ReplayProtectionFactory\<close>, which
  is evaluated before \<^verbatim>\<open>signer.getAddress()\<close> and before the contract is asked.
\<close>

definition accessNonceStore :: "replies \<Rightarrow> 'a ReplayGuard_scheme \<Rightarrow> int \<Rightarrow> error + int" where
  "accessNonceStore env g index =
     (case getCode env (forwarderAddress g) of
        Inl e \<Rightarrow> Inl e
      | Inr code \<Rightarrow>
          (let codeIsEmpty = (code = [] \<or> code = ''0x'' \<or> code = ''0x0'') in
           if codeIsEmpty
           then Inl (EthersError ''cannot call constructor directly; use BigNumber.from'')
           else Inl (ReferenceError ''ReplayProtectionFactory is not defined'')))"

text \<open>
  The field \<^verbatim>\<open>nonce\<close> is a JavaScript \<^verbatim>\<open>number\<close>, a double.  The integers it takes are
  written as \<open>int\<close>, and \<open>number_succ n\<close> is the double \<^verbatim>\<open>n + 1\<close> for a double \<open>n\<close> that is an
  integer: the sum itself up to magnitude \<open>2^53\<close>; between \<open>2^53\<close> and \<open>2^54\<close>, where the
  doubles are the even integers, the odd sum lies halfway between two doubles and is
  rounded to the one with the even significand, a multiple of four; from \<open>2^54\<close> on, \<open>n\<close>
  again.  So \<^verbatim>\<open>n + 1\<close> is \<open>2^53\<close> for \<open>n = 2^53\<close>.
\<close>

definition number_succ :: "int \<Rightarrow> int" where
  "number_succ n =
     (let y = n + 1 in
      if \<bar>y\<bar> \<le> 2 ^ 53 then y
      else if \<bar>y\<bar> < 2 ^ 54 then (if y mod 4 = 1 then y - 1 else y + 1)
      else n)"

text \<open>
  The object state of \<^verbatim>\<open>MultiSigReplayProtection\<close>: the fields of \<^verbatim>\<open>ReplayGuard\<close>, the
  \<^verbatim>\<open>lock\<close> and the \<^verbatim>\<open>nonce\<close> (\<open>None\<close> is \<^verbatim>\<open>undefined\<close>).  The last field is not a field of
  the object: it records, in order, the remote queries issued so far, so that a statement
  can say which queries were made.
\<close>

datatype request = GetCode

record MultiSigReplayProtection = ReplayGuard +
  lock :: "nat Lock"
  nonce :: "int option"
  requests :: "request list"

definition new_MultiSigReplayProtection :: "string \<Rightarrow> MultiSigReplayProtection" where
  "new_MultiSigReplayProtection fwd =
     \<lparr>forwarderAddress = fwd, address = ''0x0000000000000000000000000000000000000000'',
      lock = new_Lock, nonce = None, requests = []\<rparr>"

text \<open>
  \<^verbatim>\<open>getNonce\<close>, run from call to return with the answers \<open>env\<close> of the provider (no other
  caller in between: the callers hold the lock).  In the branch for a deployed account
  \<^verbatim>\<open>new GnosisSafeFactory\<close> throws, so \<^verbatim>\<open>getNonce\<close> rejects and \<^verbatim>\<open>nonce\<close> stays unset.
\<close>

definition getNonce ::
  "replies \<Rightarrow> 'a MultiSigReplayProtection_scheme
     \<Rightarrow> (error + int) \<times> 'a MultiSigReplayProtection_scheme" where
  "getNonce env s =
     (case nonce s of
        None \<Rightarrow>
          (let s1 = s\<lparr>requests := requests s @ [GetCode]\<rparr> in
           case getCode env (forwarderAddress s) of
             Inl e \<Rightarrow> (Inl e, s1)
           | Inr isDeployed \<Rightarrow>
               if isDeployed \<noteq> ''0x''
               then (Inl (ReferenceError ''GnosisSafeFactory is not defined''), s1)
               else (Inr 0, s1\<lparr>nonce := Some 0\<rparr>))
      | Some n \<Rightarrow> (Inr (number_succ n), s\<lparr>nonce := Some (number_succ n)\<rparr>))"

text \<open>
  \<^verbatim>\<open>defaultAbiCoder.encode(["uint"], [n])\<close> is computed by the ethers libraries.  They turn
  the \<^verbatim>\<open>number\<close> into a \<^verbatim>\<open>BigNumber\<close>, which fails with the reason \<^verbatim>\<open>overflow\<close> for a number of
  magnitude \<open>2^53 - 1\<close> or more, and refuse a negative value for \<^verbatim>\<open>uint\<close> with the reason
  \<^verbatim>\<open>value out-of-bounds\<close>.  The encoding of an accepted \<open>n\<close> is kept symbolic.  A rejection
  of \<^verbatim>\<open>getNonce\<close> is thrown by the \<^verbatim>\<open>await\<close>, before \<^verbatim>\<open>encode\<close> is called.
\<close>

datatype abi = Abi_uint int

definition abi_encode_uint :: "int \<Rightarrow> error + abi" where
  "abi_encode_uint n =
     (if n \<ge> 2 ^ 53 - 1 \<or> n \<le> - (2 ^ 53 - 1) then Inl (EthersError ''overflow'')
      else if n < 0 then Inl (EthersError ''value out-of-bounds'')
      else Inr (Abi_uint n))"

fun encode :: "error + int \<Rightarrow> error + abi" where
  "encode (Inl e) = Inl e"
| "encode (Inr n) = abi_encode_uint n"

text \<open>
  The \<^verbatim>\<open>finally\<close> block of \<^verbatim>\<open>getEncodedReplayProtection\<close>: \<^verbatim>\<open>this.lock.release()\<close>, whose
  exception replaces the completion \<open>r\<close> of the \<^verbatim>\<open>try\<close> block.  It returns the waiter that
  was resumed, if any.
\<close>

definition release_finally ::
  "error + abi \<Rightarrow> 'a MultiSigReplayProtection_scheme
     \<Rightarrow> ((error + abi) \<times> nat option) \<times> 'a MultiSigReplayProtection_scheme" where
  "release_finally r s =
     (case Lock_release (lock s) of
        (Inl e, l') \<Rightarrow> ((Inl e, None), s\<lparr>lock := l'\<rparr>)
      | (Inr w, l') \<Rightarrow> ((r, w), s\<lparr>lock := l'\<rparr>))"

text \<open>
  \<^verbatim>\<open>getEncodedReplayProtection\<close> called by \<open>t\<close> with no other caller running in between.
  When the lock is taken the call stays suspended at \<^verbatim>\<open>await this.lock.acquire()\<close>.
\<close>

definition getEncodedReplayProtection ::
  "nat \<Rightarrow> replies \<Rightarrow> 'a MultiSigReplayProtection_scheme
     \<Rightarrow> abi outcome \<times> 'a MultiSigReplayProtection_scheme" where
  "getEncodedReplayProtection t env s =
     (case Lock_acquire t (lock s) of
        (Resolved, l') \<Rightarrow>
          (let (r, s1) = getNonce env (s\<lparr>lock := l'\<rparr>);
               ((r', _), s2) = release_finally (encode r) s1
           in (Settled r', s2))
      | (Pending, l') \<Rightarrow> (Suspended, s\<lparr>lock := l'\<rparr>)
      | (Rejected e, l') \<Rightarrow>
          (let ((r', _), s2) = release_finally (Inl e) (s\<lparr>lock := l'\<rparr>) in (Settled r', s2)))"

subsection \<open>Concurrent calls\<close>

text \<open>
  JavaScript runs one job at a time; a call of an \<^verbatim>\<open>async\<close> function runs until its next
  \<^verbatim>\<open>await\<close> and is continued by a later job.  Each call of
  \<^verbatim>\<open>getEncodedReplayProtection\<close> is therefore in one of these places:
  \<^item> \<open>Idle\<close>: not called yet;
  \<^item> \<open>Queued\<close>: at \<^verbatim>\<open>await this.lock.acquire()\<close>, the promise pending;
  \<^item> \<open>Granted\<close>: at \<^verbatim>\<open>await this.lock.acquire()\<close>, the promise resolved;
  \<^item> \<open>AwaitGetCode\<close>: inside \<^verbatim>\<open>getNonce\<close>, at \<^verbatim>\<open>await ...getCode(...)\<close>;
  \<^item> \<open>AwaitGetNonce r\<close>: at \<^verbatim>\<open>await this.getNonce()\<close>, that promise settled with \<open>r\<close>;
  \<^item> \<open>Returned r\<close>: the promise of the call settled with \<open>r\<close>.
\<close>

datatype pc =
    Idle
  | Queued
  | Granted
  | AwaitGetCode
  | AwaitGetNonce "error + int"
  | Returned "error + abi"

record system = MultiSigReplayProtection +
  calls :: "nat \<Rightarrow> pc"

definition new_system :: "string \<Rightarrow> system" where
  "new_system fwd =
     \<lparr>forwarderAddress = fwd, address = ''0x0000000000000000000000000000000000000000'',
      lock = new_Lock, nonce = None, requests = [], calls = (\<lambda>_. Idle)\<rparr>"

text \<open>
  What a job does: a new call \<open>t\<close> is issued; the call \<open>t\<close>, whose awaited promise is
  settled, is continued; or the answer of the provider for the call \<open>t\<close> arrives and
  continues it.  The scheduler and the provider choose the order and the answers.
\<close>

datatype event =
    Call nat
  | Continue nat
  | CodeReply nat "error + string"

definition finish :: "nat \<Rightarrow> error + abi \<Rightarrow> system \<Rightarrow> system" where
  "finish t r s =
     (case release_finally r s of
        ((r', None), s') \<Rightarrow> s'\<lparr>calls := (calls s')(t := Returned r')\<rparr>
      | ((r', Some w), s') \<Rightarrow> s'\<lparr>calls := (calls s')(t := Returned r', w := Granted)\<rparr>)"

fun step :: "event \<Rightarrow> system \<Rightarrow> system option" where
  "step (Call t) s =
     (if calls s t = Idle then
        (case Lock_acquire t (lock s) of
           (Resolved, l') \<Rightarrow> Some (s\<lparr>lock := l', calls := (calls s)(t := Granted)\<rparr>)
         | (Pending, l') \<Rightarrow> Some (s\<lparr>lock := l', calls := (calls s)(t := Queued)\<rparr>)
         | (Rejected e, l') \<Rightarrow> Some (finish t (Inl e) (s\<lparr>lock := l'\<rparr>)))
      else None)"
| "step (Continue t) s =
     (case calls s t of
        Granted \<Rightarrow>
          (case nonce s of
             None \<Rightarrow>
               Some (s\<lparr>requests := requests s @ [GetCode],
                       calls := (calls s)(t := AwaitGetCode)\<rparr>)
           | Some n \<Rightarrow>
               Some (s\<lparr>nonce := Some (number_succ n),
                       calls := (calls s)(t := AwaitGetNonce (Inr (number_succ n)))\<rparr>))
      | AwaitGetNonce r \<Rightarrow> Some (finish t (encode r) s)
      | _ \<Rightarrow> None)"
| "step (CodeReply t r) s =
     (if calls s t = AwaitGetCode then
        (case r of
           Inl e \<Rightarrow> Some (s\<lparr>calls := (calls s)(t := AwaitGetNonce (Inl e))\<rparr>)
         | Inr isDeployed \<Rightarrow>
             if isDeployed \<noteq> ''0x'' then
               Some (s\<lparr>calls := (calls s)
                         (t := AwaitGetNonce
                                 (Inl (ReferenceError ''GnosisSafeFactory is not defined'')))\<rparr>)
             else
               Some (s\<lparr>nonce := Some 0, calls := (calls s)(t := AwaitGetNonce (Inr 0))\<rparr>))
      else None)"

fun run :: "event list \<Rightarrow> system \<Rightarrow> system option" where
  "run [] s = Some s"
| "run (e # es) s = (case step e s of None \<Rightarrow> None | Some s' \<Rightarrow> run es s')"

text \<open>The calls issued by a sequence of jobs, in the order they were issued.\<close>

fun called :: "event list \<Rightarrow> nat list" where
  "called [] = []"
| "called (Call t # es) = t # called es"
| "called (_ # es) = called es"

text \<open>
  The answers of the provider, in a sequence of jobs, that are not the code \<^verbatim>\<open>"0x"\<close>: failed
  queries, and codes of deployed accounts.
\<close>

fun bad_replies :: "event list \<Rightarrow> nat" where
  "bad_replies [] = 0"
| "bad_replies (CodeReply t r # es) = (if r = Inr ''0x'' then 0 else 1) + bad_replies es"
| "bad_replies (_ # es) = bad_replies es"

text \<open>The integers \<open>a, a + 1, \<dots>\<close>, \<open>m\<close> of them.\<close>

definition consecutive :: "int \<Rightarrow> nat \<Rightarrow> int list" where
  "consecutive a m = map (\<lambda>i. a + int i) [0..<m]"

subsection \<open>Invariant of the concurrent calls\<close>

text \<open>The places between \<^verbatim>\<open>lock.acquire()\<close> resolving and \<^verbatim>\<open>lock.release()\<close>.\<close>

definition in_cs :: "pc \<Rightarrow> bool" where
  "in_cs p =
     (case p of
        Granted \<Rightarrow> True
      | AwaitGetCode \<Rightarrow> True
      | AwaitGetNonce _ \<Rightarrow> True
      | _ \<Rightarrow> False)"

text \<open>
  \<open>good\<close> relates the results \<open>outs\<close> returned so far, the place \<open>H\<close> of the call that holds
  the lock, the stored nonce, the queries issued and the number \<open>b\<close> of answers that were
  not \<^verbatim>\<open>"0x"\<close>: failures come first, happen only while the nonce is unset, and each of them
  follows such an answer; from then on the results are \<open>0, 1, 2, \<dots>\<close> up to the stored
  nonce; and every query of the code beyond the first was preceded by a failed call.
\<close>

fun asked :: "pc list \<Rightarrow> nat" where
  "asked [AwaitGetCode] = 1"
| "asked [AwaitGetNonce _] = 1"
| "asked _ = 0"

fun failing :: "pc list \<Rightarrow> nat" where
  "failing [AwaitGetNonce (Inl _)] = 1"
| "failing _ = 0"

definition good ::
  "(error + abi) list \<Rightarrow> pc list \<Rightarrow> int option \<Rightarrow> request list \<Rightarrow> nat \<Rightarrow> bool" where
  "good outs H nc reqs b =
     (\<exists>errs m. outs = map Inl errs @ map (\<lambda>n. Inr (Abi_uint n)) (consecutive 0 m) \<and>
        (case nc of
           None \<Rightarrow>
             m = 0 \<and> (\<forall>v. H \<noteq> [AwaitGetNonce (Inr v)]) \<and>
             length errs + failing H \<le> b \<and>
             count_list reqs GetCode \<le> length errs + asked H
         | Some v \<Rightarrow>
             (H = [] \<or> H = [Granted] \<or> H = [AwaitGetNonce (Inr v)]) \<and>
             v = (if H = [AwaitGetNonce (Inr v)] then int m else int m - 1) \<and>
             length errs \<le> b \<and>
             count_list reqs GetCode \<le> length errs + 1))"

definition struct ::
  "nat list \<Rightarrow> nat list \<Rightarrow> (error + abi) list \<Rightarrow> nat list \<Rightarrow> nat Lock \<Rightarrow> (nat \<Rightarrow> pc) \<Rightarrow> bool" where
  "struct D H outs arr l c =
     (arr = D @ H @ waiters l \<and> distinct arr \<and>
      (\<forall>t. t \<notin> set arr \<longrightarrow> c t = Idle) \<and>
      map c D = map Returned outs \<and>
      (\<forall>t \<in> set (waiters l). c t = Queued) \<and>
      (if mLocked l then (\<exists>h. H = [h] \<and> in_cs (c h)) else H = [] \<and> waiters l = []))"

text \<open>
  The invariant of the concurrent runs.  \<open>arr\<close> lists the calls issued so far, in order:
  first the calls \<open>D\<close> that have returned (with the results \<open>outs\<close>), then the call that
  holds the lock, if the lock is taken, then the queue of the lock.
\<close>

definition consistent :: "nat list \<Rightarrow> nat \<Rightarrow> system \<Rightarrow> bool" where
  "consistent arr b s =
     (\<exists>D H outs. struct D H outs arr (lock s) (calls s) \<and>
        good outs (map (calls s) H) (nonce s) (requests s) b)"

subsection \<open>A run that serves every call\<close>

text \<open>
  \<open>K\<close> calls are issued before any of them is continued; the first one is continued, is
  told that there is no code at the forwarder address, and returns; then each of the
  others is continued twice, in the order they were issued.
\<close>

definition schedule :: "nat \<Rightarrow> event list" where
  "schedule K =
     map Call [0..<K] @
     [Continue 0, CodeReply 0 (Inr ''0x''), Continue 0] @
     concat (map (\<lambda>i. [Continue i, Continue i]) [1..<K])"

text \<open>
  The state of that run once the calls \<open>0, \<dots>, j - 1\<close> have returned: the call \<open>j\<close> holds
  the lock and the calls after it are queued in order, or all \<open>K\<close> calls have returned and the
  lock is free.
\<close>

definition served :: "nat \<Rightarrow> nat \<Rightarrow> system \<Rightarrow> bool" where
  "served K j s =
     (lock s = (if j < K then \<lparr>waiters = [Suc j..<K], mLocked = True\<rparr>
                else \<lparr>waiters = [], mLocked = False\<rparr>) \<and>
      nonce s = Some (int j - 1) \<and>
      requests s = [GetCode] \<and>
      (\<forall>t. calls s t =
         (if t < j then Returned (Inr (Abi_uint (int t)))
          else if t = j \<and> j < K then Granted
          else if t < K then Queued else Idle)))"

section \<open>Properties of Lock\<close>

lemma lock_step_fifo:
  "lock_step x l = (e, l') \<Longrightarrow>
   resumed [e] @ waiters l' = waiters l @ enqueued [e]"
  by (cases x; cases "waiters l")
     (auto simp: Lock_acquire_def Lock_release_def split: if_splits)

lemma resumed_Cons: "resumed (e # es) = resumed [e] @ resumed es"
  by (cases e) simp_all

lemma enqueued_Cons: "enqueued (e # es) = enqueued [e] @ enqueued es"
  by (cases e) simp_all

lemma lock_run_fifo:
  "lock_run xs l = (es, l') \<Longrightarrow> resumed es @ waiters l' = waiters l @ enqueued es"
proof (induction xs arbitrary: l es l')
  case Nil
  then show ?case by simp
next
  case (Cons x xs)
  obtain e l1 where st: "lock_step x l = (e, l1)" by (cases "lock_step x l")
  obtain es1 l2 where rn: "lock_run xs l1 = (es1, l2)" by (cases "lock_run xs l1")
  from Cons.prems st rn have es: "es = e # es1" and l': "l' = l2" by simp_all
  have a: "resumed [e] @ waiters l1 = waiters l @ enqueued [e]"
    by (rule lock_step_fifo [OF st])
  have b: "resumed es1 @ waiters l2 = waiters l1 @ enqueued es1"
    by (rule Cons.IH [OF rn])
  have "resumed es @ waiters l' = resumed [e] @ (resumed es1 @ waiters l2)"
    unfolding es l' by (subst resumed_Cons) simp
  also have "\<dots> = (resumed [e] @ waiters l1) @ enqueued es1"
    unfolding b by simp
  also have "\<dots> = waiters l @ (enqueued [e] @ enqueued es1)"
    unfolding a by simp
  also have "\<dots> = waiters l @ enqueued es"
    unfolding es by (subst (2) enqueued_Cons) simp
  finally show ?case .
qed

text \<open>
  C3.  \<^verbatim>\<open>Lock.acquire\<close> on an unlocked lock sets \<^verbatim>\<open>mLocked\<close> and returns a resolved promise,
  so the caller is not queued; on a locked lock it appends the caller to the tail of
  \<^verbatim>\<open>waiters\<close> and returns a pending promise.  \<^verbatim>\<open>release\<close> on a locked lock with waiters
  resumes the head of the queue and leaves the lock locked.  Over any sequence of
  \<^verbatim>\<open>acquire\<close> and \<^verbatim>\<open>release\<close> calls, the waiters resumed so far followed by the waiters
  still queued are the waiters queued at the start followed by the callers enqueued since,
  in that order: waiters are resumed in exactly the order they were enqueued.
\<close>

theorem Lock_acquire_fifo:
  "(\<not> mLocked l \<longrightarrow> Lock_acquire w l = (Resolved, l\<lparr>mLocked := True\<rparr>)) \<and>
   (mLocked l \<longrightarrow> Lock_acquire w l = (Pending, l\<lparr>waiters := waiters l @ [w]\<rparr>)) \<and>
   (mLocked l \<and> waiters l = h # ws \<longrightarrow>
      Lock_release l = (Inr (Some h), l\<lparr>waiters := ws\<rparr>)) \<and>
   (lock_run xs l = (es, l') \<longrightarrow> resumed es @ waiters l' = waiters l @ enqueued es)"
proof (intro conjI impI)
  assume "\<not> mLocked l"
  then show "Lock_acquire w l = (Resolved, l\<lparr>mLocked := True\<rparr>)"
    by (simp add: Lock_acquire_def)
next
  assume "mLocked l"
  then show "Lock_acquire w l = (Pending, l\<lparr>waiters := waiters l @ [w]\<rparr>)"
    by (simp add: Lock_acquire_def)
next
  assume "mLocked l \<and> waiters l = h # ws"
  then show "Lock_release l = (Inr (Some h), l\<lparr>waiters := ws\<rparr>)"
    by (simp add: Lock_release_def)
next
  assume "lock_run xs l = (es, l')"
  then show "resumed es @ waiters l' = waiters l @ enqueued es"
    by (rule lock_run_fifo)
qed

theorem Lock_acquire_fifo_witness:
  "Lock_acquire (1::nat) new_Lock = (Resolved, \<lparr>waiters = [], mLocked = True\<rparr>) \<and>
   Lock_acquire (4::nat) \<lparr>waiters = [2, 3], mLocked = True\<rparr>
     = (Pending, \<lparr>waiters = [2, 3, 4], mLocked = True\<rparr>) \<and>
   Lock_release \<lparr>waiters = [2, 3, 4::nat], mLocked = True\<rparr>
     = (Inr (Some 2), \<lparr>waiters = [3, 4], mLocked = True\<rparr>) \<and>
   lock_run [Acquire (1::nat), Acquire 2, Acquire 3, Release, Acquire 4, Release, Release]
       new_Lock
     = ([Entered 1, Enqueued 2, Enqueued 3, Resumed 2, Enqueued 4, Resumed 3, Resumed 4],
        \<lparr>waiters = [], mLocked = True\<rparr>) \<and>
   resumed [Entered (1::nat), Enqueued 2, Enqueued 3, Resumed 2, Enqueued 4, Resumed 3,
            Resumed 4] @ []
     = [] @ enqueued [Entered 1, Enqueued 2, Enqueued 3, Resumed 2, Enqueued 4, Resumed 3,
                      Resumed 4]"
proof -
  have run: "lock_run [Acquire (1::nat), Acquire 2, Acquire 3, Release, Acquire 4, Release,
                       Release] new_Lock
     = ([Entered 1, Enqueued 2, Enqueued 3, Resumed 2, Enqueued 4, Resumed 3, Resumed 4],
        \<lparr>waiters = [], mLocked = True\<rparr>)"
    by (simp add: new_Lock_def Lock_acquire_def Lock_release_def)
  have a: "Lock_acquire (1::nat) new_Lock = (Resolved, \<lparr>waiters = [], mLocked = True\<rparr>)"
    using Lock_acquire_fifo [where l = "new_Lock :: nat Lock" and w = 1]
    by (simp add: new_Lock_def)
  have b: "Lock_acquire (4::nat) \<lparr>waiters = [2, 3], mLocked = True\<rparr>
     = (Pending, \<lparr>waiters = [2, 3, 4], mLocked = True\<rparr>)"
    using Lock_acquire_fifo [where l = "\<lparr>waiters = [2, 3::nat], mLocked = True\<rparr>" and w = 4]
    by simp
  have c: "Lock_release \<lparr>waiters = [2, 3, 4::nat], mLocked = True\<rparr>
     = (Inr (Some 2), \<lparr>waiters = [3, 4], mLocked = True\<rparr>)"
    using Lock_acquire_fifo [where l = "\<lparr>waiters = [2, 3, 4::nat], mLocked = True\<rparr>"
        and h = 2 and ws = "[3, 4]"]
    by simp
  have d: "resumed [Entered (1::nat), Enqueued 2, Enqueued 3, Resumed 2, Enqueued 4,
                    Resumed 3, Resumed 4] @ []
     = [] @ enqueued [Entered 1, Enqueued 2, Enqueued 3, Resumed 2, Enqueued 4, Resumed 3,
                      Resumed 4]"
    using Lock_acquire_fifo [where l = "new_Lock :: nat Lock"
        and xs = "[Acquire 1, Acquire 2, Acquire 3, Release, Acquire 4, Release, Release]"
        and es = "[Entered 1, Enqueued 2, Enqueued 3, Resumed 2, Enqueued 4, Resumed 3,
                   Resumed 4]"
        and l' = "\<lparr>waiters = [], mLocked = True\<rparr>"] run
    by (simp add: new_Lock_def)
  from a b c run d show ?thesis by blast
qed

text \<open>
  C4.  \<^verbatim>\<open>Lock.release\<close> on a locked lock without waiters sets \<^verbatim>\<open>mLocked\<close> to false.  On a
  locked lock with waiters it resumes the head of the queue, and \<^verbatim>\<open>mLocked\<close> is true in
  every value the lock takes during the call, from entry to return.
\<close>

theorem Lock_release_handoff:
  "(mLocked l \<and> waiters l = [] \<longrightarrow>
      Lock_release l = (Inr None, l\<lparr>mLocked := False\<rparr>) \<and>
      last (Lock_release_states l) = snd (Lock_release l)) \<and>
   (mLocked l \<and> waiters l = h # ws \<longrightarrow>
      Lock_release l = (Inr (Some h), l\<lparr>waiters := ws\<rparr>) \<and>
      mLocked (snd (Lock_release l)) \<and>
      (\<forall>s \<in> set (Lock_release_states l). mLocked s) \<and>
      last (Lock_release_states l) = snd (Lock_release l))"
  by (simp add: Lock_release_def Lock_release_states_def)

theorem Lock_release_handoff_witness:
  "Lock_release \<lparr>waiters = [], mLocked = True\<rparr>
     = (Inr (None :: nat option), \<lparr>waiters = [], mLocked = False\<rparr>) \<and>
   Lock_release \<lparr>waiters = [7, 8::nat], mLocked = True\<rparr>
     = (Inr (Some 7), \<lparr>waiters = [8], mLocked = True\<rparr>) \<and>
   Lock_release_states \<lparr>waiters = [7, 8::nat], mLocked = True\<rparr>
     = [\<lparr>waiters = [7, 8], mLocked = True\<rparr>, \<lparr>waiters = [8], mLocked = True\<rparr>] \<and>
   list_all mLocked (Lock_release_states \<lparr>waiters = [7, 8::nat], mLocked = True\<rparr>)"
proof -
  have a: "Lock_release \<lparr>waiters = [], mLocked = True\<rparr>
     = (Inr (None :: nat option), \<lparr>waiters = [], mLocked = False\<rparr>)"
    using Lock_release_handoff [where l = "\<lparr>waiters = [] :: nat list, mLocked = True\<rparr>"]
    by simp
  have b: "Lock_release \<lparr>waiters = [7, 8::nat], mLocked = True\<rparr>
       = (Inr (Some 7), \<lparr>waiters = [8], mLocked = True\<rparr>) \<and>
     list_all mLocked (Lock_release_states \<lparr>waiters = [7, 8::nat], mLocked = True\<rparr>)"
    using Lock_release_handoff [where l = "\<lparr>waiters = [7, 8::nat], mLocked = True\<rparr>"
        and h = 7 and ws = "[8]"]
    by (simp add: list_all_iff)
  have c: "Lock_release_states \<lparr>waiters = [7, 8::nat], mLocked = True\<rparr>
     = [\<lparr>waiters = [7, 8], mLocked = True\<rparr>, \<lparr>waiters = [8], mLocked = True\<rparr>]"
    by (simp add: Lock_release_states_def)
  from a b c show ?thesis by blast
qed

section \<open>Properties of LockManager\<close>

lemma agrees_acquire:
  assumes "agrees m u"
  shows "agrees (fst (manager_step (AcquireKey key w) (m, u)))
           (snd (manager_step (AcquireKey key w) (m, u)))"
proof (cases "key \<in> held u")
  case True
  with assms have "locks m key = Some \<lparr>waiters = queued u key, mLocked = True\<rparr>"
    by (simp add: agrees_def)
  with assms True show ?thesis
    by (auto simp: agrees_def LockManager_acquire_def locks_get_def Lock_acquire_def Let_def)
next
  case False
  with assms have "locks m key = None" and "queued u key = []"
    by (simp_all add: agrees_def)
  with assms False show ?thesis
    by (auto simp: agrees_def LockManager_acquire_def locks_get_def Lock_acquire_def Let_def
        new_Lock_def)
qed

lemma agrees_release:
  assumes "agrees m u"
  shows "agrees (fst (manager_step (ReleaseKey key) (m, u)))
           (snd (manager_step (ReleaseKey key) (m, u)))"
proof (cases "key \<in> held u")
  case False
  with assms have "locks m key = None" by (simp add: agrees_def)
  with assms show ?thesis
    by (simp add: LockManager_release_def locks_get_def)
next
  case True
  with assms have l: "locks m key = Some \<lparr>waiters = queued u key, mLocked = True\<rparr>"
    by (simp add: agrees_def)
  show ?thesis
  proof (cases "queued u key")
    case Nil
    with assms True l show ?thesis
      by (auto simp: agrees_def LockManager_release_def locks_get_def Lock_release_def
          locked_def)
  next
    case (Cons w ws)
    with assms True l show ?thesis
      by (auto simp: agrees_def LockManager_release_def locks_get_def Lock_release_def
          locked_def)
  qed
qed

lemma agrees_step:
  assumes "agrees (fst mu) (snd mu)"
  shows "agrees (fst (manager_step x mu)) (snd (manager_step x mu))"
proof -
  obtain m u where mu: "mu = (m, u)" by (cases mu)
  with assms have "agrees m u" by simp
  then show ?thesis
    unfolding mu by (cases x) (simp_all only: agrees_acquire agrees_release)
qed

lemma agrees_run:
  "agrees (fst mu) (snd mu) \<Longrightarrow>
   agrees (fst (manager_run xs mu)) (snd (manager_run xs mu))"
  by (induction xs arbitrary: mu) (simp_all add: agrees_step)

lemma agrees_new: "agrees new_LockManager no_usage"
  by (simp add: agrees_def new_LockManager_def no_usage_def)

lemma release_None_absent:
  "LockManager_release key m = (Inr None, m') \<Longrightarrow> locks m' key = None"
  by (auto simp: LockManager_release_def locks_get_def Lock_release_def
      locked_def split: option.splits if_splits)

lemma release_Some_present:
  "LockManager_release key m = (Inr (Some w), m') \<Longrightarrow> locks m' key \<noteq> None"
  by (auto simp: LockManager_release_def locks_get_def Lock_release_def
      locked_def split: option.splits if_splits)

text \<open>
  C5.  Take any sequence of \<^verbatim>\<open>acquire\<close> and \<^verbatim>\<open>release\<close> calls on a new registry (any keys,
  failed calls included), and let \<open>u\<close> be what the callers know after it.  Then a key is
  an own key of \<^verbatim>\<open>locks\<close> if and only if the key is held or callers are queued on it; the
  lock stored for a key is locked and its queue is the queue of the key; a \<^verbatim>\<open>release\<close>
  that hands the key to a waiter keeps the key in the registry; and after a \<^verbatim>\<open>release\<close>
  that resumes nobody, which leaves the lock unlocked without waiters, the key is absent.
\<close>

theorem LockManager_present_iff_in_use:
  assumes "manager_run xs (new_LockManager, no_usage) = (m, u)"
  shows "(key \<in> dom (locks m) \<longleftrightarrow> key \<in> held u \<or> queued u key \<noteq> []) \<and>
         (\<forall>l. locks m key = Some l \<longrightarrow> locked l \<and> waiters l = queued u key) \<and>
         (\<forall>w m'. LockManager_release key m = (Inr (Some w), m') \<longrightarrow> key \<in> dom (locks m')) \<and>
         (\<forall>m'. LockManager_release key m = (Inr None, m') \<longrightarrow> key \<notin> dom (locks m'))"
proof -
  have "agrees (fst (manager_run xs (new_LockManager, no_usage)))
          (snd (manager_run xs (new_LockManager, no_usage)))"
    by (rule agrees_run) (simp add: agrees_new)
  with assms have a: "agrees m u" by simp
  then have l: "locks m key =
      (if key \<in> held u then Some \<lparr>waiters = queued u key, mLocked = True\<rparr> else None)"
    and q: "key \<notin> held u \<longrightarrow> queued u key = []"
    by (simp_all add: agrees_def)
  from l q have "key \<in> dom (locks m) \<longleftrightarrow> key \<in> held u \<or> queued u key \<noteq> []"
    by (auto simp: dom_def)
  moreover from l have "\<forall>l. locks m key = Some l \<longrightarrow> locked l \<and> waiters l = queued u key"
    by (auto simp: locked_def split: if_splits)
  moreover have "\<forall>w m'. LockManager_release key m = (Inr (Some w), m')
      \<longrightarrow> key \<in> dom (locks m')"
    using release_Some_present by (fastforce simp: dom_def)
  moreover have "\<forall>m'. LockManager_release key m = (Inr None, m') \<longrightarrow> key \<notin> dom (locks m')"
    by (auto dest: release_None_absent)
  ultimately show ?thesis by blast
qed

theorem LockManager_present_iff_in_use_witness:
  "locks (fst (manager_run [AcquireKey ''a'' (1::nat), AcquireKey ''a'' 2, AcquireKey ''b'' 3,
                            ReleaseKey ''b''] (new_LockManager, no_usage))) ''a''
     = Some \<lparr>waiters = [2], mLocked = True\<rparr> \<and>
   ''a'' \<in> held (snd (manager_run [AcquireKey ''a'' (1::nat), AcquireKey ''a'' 2,
                            AcquireKey ''b'' 3, ReleaseKey ''b''] (new_LockManager, no_usage))) \<and>
   queued (snd (manager_run [AcquireKey ''a'' (1::nat), AcquireKey ''a'' 2,
                            AcquireKey ''b'' 3, ReleaseKey ''b''] (new_LockManager, no_usage))) ''a''
     = [2] \<and>
   ''a'' \<in> dom (locks (fst (manager_run [AcquireKey ''a'' (1::nat), AcquireKey ''a'' 2,
                            AcquireKey ''b'' 3, ReleaseKey ''b''] (new_LockManager, no_usage)))) \<and>
   ''b'' \<notin> held (snd (manager_run [AcquireKey ''a'' (1::nat), AcquireKey ''a'' 2,
                            AcquireKey ''b'' 3, ReleaseKey ''b''] (new_LockManager, no_usage))) \<and>
   queued (snd (manager_run [AcquireKey ''a'' (1::nat), AcquireKey ''a'' 2,
                            AcquireKey ''b'' 3, ReleaseKey ''b''] (new_LockManager, no_usage))) ''b''
     = [] \<and>
   ''b'' \<notin> dom (locks (fst (manager_run [AcquireKey ''a'' (1::nat), AcquireKey ''a'' 2,
                            AcquireKey ''b'' 3, ReleaseKey ''b''] (new_LockManager, no_usage)))) \<and>
   fst (LockManager_release ''a'' (fst (manager_run [AcquireKey ''a'' (1::nat),
                            AcquireKey ''a'' 2, AcquireKey ''b'' 3, ReleaseKey ''b'']
                            (new_LockManager, no_usage)))) = Inr (Some 2) \<and>
   ''a'' \<in> dom (locks (snd (LockManager_release ''a'' (fst (manager_run
                            [AcquireKey ''a'' (1::nat), AcquireKey ''a'' 2, AcquireKey ''b'' 3,
                             ReleaseKey ''b''] (new_LockManager, no_usage))))))"
proof -
  define xs where "xs = [AcquireKey ''a'' (1::nat), AcquireKey ''a'' 2, AcquireKey ''b'' 3,
                         ReleaseKey ''b'']"
  define m where "m = fst (manager_run xs (new_LockManager, no_usage))"
  define u where "u = snd (manager_run xs (new_LockManager, no_usage))"
  have run: "manager_run xs (new_LockManager, no_usage) = (m, u)"
    by (simp add: m_def u_def)
  note ev = new_LockManager_def no_usage_def LockManager_acquire_def LockManager_release_def
    locks_get_def Object_prototype_names_def new_Lock_def Lock_acquire_def Lock_release_def
    locked_def new_VError_def
  have la: "locks m ''a'' = Some \<lparr>waiters = [2], mLocked = True\<rparr>"
    unfolding m_def xs_def by (simp add: ev)
  have ha: "''a'' \<in> held u" unfolding u_def xs_def by (simp add: ev)
  have qa: "queued u ''a'' = [2]" unfolding u_def xs_def by (simp add: ev)
  have hb: "''b'' \<notin> held u" unfolding u_def xs_def by (simp add: ev)
  have qb: "queued u ''b'' = []" unfolding u_def xs_def by (simp add: ev)
  have ra: "LockManager_release ''a'' m
      = (Inr (Some 2), snd (LockManager_release ''a'' m))"
    using la by (simp add: LockManager_release_def locks_get_def Lock_release_def locked_def)
  note ta = LockManager_present_iff_in_use [OF run, of "''a''"]
  note tb = LockManager_present_iff_in_use [OF run, of "''b''"]
  from ta ha have da: "''a'' \<in> dom (locks m)" by blast
  from tb hb qb have db: "''b'' \<notin> dom (locks m)" by blast
  from ta ra have keep: "''a'' \<in> dom (locks (snd (LockManager_release ''a'' m)))" by blast
  from ra have fa: "fst (LockManager_release ''a'' m) = Inr (Some 2)" by (metis fst_conv)
  from la ha qa da hb qb db fa keep show ?thesis
    unfolding m_def u_def xs_def by blast
qed

text \<open>
  What holds of \<^verbatim>\<open>release\<close> on a lock that is not locked, of \<^verbatim>\<open>LockManager.release\<close> on a
  key without a lock that is not a member of \<^verbatim>\<open>Object.prototype\<close> and contains no \<^verbatim>\<open>%\<close>,
  and of \<^verbatim>\<open>withLock\<close> on a key that is not a member of \<^verbatim>\<open>Object.prototype\<close> when the
  callback leaves the lock of the key held: the documented errors, the registry unchanged,
  and the result of the callback after a \<^verbatim>\<open>release\<close>.
\<close>

lemma Lock_release_unlocked:
  "\<not> mLocked l \<Longrightarrow>
   Lock_release l = (Inl (VError ''Tried to release a Lock that was not locked''), l)"
  by (simp add: Lock_release_def)

lemma LockManager_release_unregistered:
  "locks m key = None \<Longrightarrow> key \<notin> set Object_prototype_names \<Longrightarrow> CHR ''%'' \<notin> set key \<Longrightarrow>
   LockManager_release key m = (Inl (VError (''There is no lock for key '' @ key)), m)"
  by (simp add: LockManager_release_def locks_get_def new_VError_def)

lemma withLock_finally_held:
  "locks m key = Some l \<Longrightarrow> mLocked l \<Longrightarrow>
   withLock_finally key r m = (r, snd (LockManager_release key m))"
  by (simp add: withLock_finally_def LockManager_release_def locks_get_def Lock_release_def)

lemma withLock_free_key:
  assumes "locks m key = None" and "key \<notin> set Object_prototype_names"
    and "func (m\<lparr>locks := (locks m)(key \<mapsto> \<lparr>waiters = [], mLocked = True\<rparr>)\<rparr>) = (r, m')"
    and "locks m' key = Some l" and "mLocked l"
  shows "withLock key w func m = (Settled r, snd (LockManager_release key m'))"
  using assms
  by (simp add: withLock_def withLock_resume_def LockManager_acquire_def locks_get_def
      new_Lock_def Lock_acquire_def withLock_finally_held)

text \<open>
  C8, at the key \<^verbatim>\<open>"constructor"\<close> on a registry without locks:
  \<^verbatim>\<open>this.locks["constructor"]\<close> is the inherited \<^verbatim>\<open>Object\<close> function, so the test
  \<^verbatim>\<open>!this.locks[key]\<close> is false, no \<^verbatim>\<open>VError\<close> is thrown, and the call
  \<^verbatim>\<open>this.locks[key].release()\<close> throws a \<^verbatim>\<open>TypeError\<close>.  The registry is unchanged.
\<close>

theorem LockManager_release_inherited_key:
  "LockManager_release ''constructor'' new_LockManager
     = (Inl (TypeError ''this.locks[key].release is not a function''), new_LockManager)"
  by (simp add: LockManager_release_def locks_get_def new_LockManager_def
      Object_prototype_names_def)

text \<open>
  C6, at the key \<^verbatim>\<open>"constructor"\<close> on a registry without locks: \<^verbatim>\<open>acquire\<close> creates no
  lock and rejects, the callback is not run whatever it is, and the \<^verbatim>\<open>TypeError\<close> of the
  \<^verbatim>\<open>release\<close> in the \<^verbatim>\<open>finally\<close> block is what \<^verbatim>\<open>withLock\<close> rejects with.
\<close>

theorem withLock_inherited_key:
  "withLock ''constructor'' w func new_LockManager
     = (Settled (Inl (TypeError ''this.locks[key].release is not a function'')),
        new_LockManager)"
  by (simp add: withLock_def withLock_finally_def LockManager_acquire_def
      LockManager_release_def locks_get_def new_LockManager_def Object_prototype_names_def)

section \<open>Properties of MultiSigReplayProtection, one caller at a time\<close>

text \<open>
  Below \<open>2^53\<close> in magnitude the double \<^verbatim>\<open>n + 1\<close> is the integer \<open>n + 1\<close>; at \<open>2^53\<close> it is
  \<open>2^53\<close> again.  The encoder accepts the integers from \<open>0\<close> to \<open>2^53 - 2\<close>.
\<close>

lemma number_succ_safe:
  assumes "\<bar>v\<bar> < 2 ^ 53"
  shows "number_succ v = v + 1"
proof -
  have "\<bar>v + 1\<bar> \<le> 2 ^ 53" using assms by simp
  then show ?thesis unfolding number_succ_def Let_def by (rule if_P)
qed

lemma number_succ_limit: "number_succ (2 ^ 53) = 2 ^ 53"
  by (simp add: number_succ_def Let_def)

lemma abi_encode_uint_accepts:
  "0 \<le> n \<Longrightarrow> n < 2 ^ 53 - 1 \<Longrightarrow> abi_encode_uint n = Inr (Abi_uint n)"
  by (simp add: abi_encode_uint_def)

text \<open>
  C2, as stated, fails: with \<open>2^53\<close> stored in \<^verbatim>\<open>nonce\<close>, \<^verbatim>\<open>getNonce\<close> does not return the
  stored value plus one.  It returns \<open>2^53\<close> again, the double \<^verbatim>\<open>this.nonce + 1\<close>.
\<close>

theorem getNonce_counter_counterexample:
  "fst (getNonce \<lparr>getCode = (\<lambda>_. Inr ''0x'')\<rparr>
         ((new_MultiSigReplayProtection ''0xf00'')\<lparr>nonce := Some 9007199254740992\<rparr>))
     \<noteq> Inr (9007199254740992 + 1)"
  by (simp add: getNonce_def number_succ_def Let_def)

text \<open>
  C2, amended.  When \<^verbatim>\<open>nonce\<close> is unset and the provider reports the code \<^verbatim>\<open>"0x"\<close> at the
  forwarder address, \<^verbatim>\<open>getNonce\<close> asks for the code once, returns \<open>0\<close> and stores it.  When
  \<^verbatim>\<open>nonce\<close> holds an integer \<open>v\<close> of magnitude below \<open>2^53\<close>, \<^verbatim>\<open>getNonce\<close> returns \<open>v + 1\<close>,
  stores it and asks nothing of the provider.
\<close>

theorem getNonce_zero_then_increment:
  "(nonce s = None \<and> getCode env (forwarderAddress s) = Inr ''0x'' \<longrightarrow>
      getNonce env s = (Inr 0, s\<lparr>nonce := Some 0, requests := requests s @ [GetCode]\<rparr>)) \<and>
   (nonce s = Some v \<and> \<bar>v\<bar> < 2 ^ 53 \<longrightarrow>
      getNonce env s = (Inr (v + 1), s\<lparr>nonce := Some (v + 1)\<rparr>))"
  by (simp add: getNonce_def Let_def number_succ_safe)

theorem getNonce_zero_then_increment_witness:
  "getNonce \<lparr>getCode = (\<lambda>_. Inr ''0x'')\<rparr> (new_MultiSigReplayProtection ''0xf00'')
     = (Inr 0, (new_MultiSigReplayProtection ''0xf00'')
                 \<lparr>nonce := Some 0, requests := [GetCode]\<rparr>) \<and>
   getNonce \<lparr>getCode = (\<lambda>_. Inl (ExternalQueryError ''offline''))\<rparr>
       ((new_MultiSigReplayProtection ''0xf00'')\<lparr>nonce := Some 7\<rparr>)
     = (Inr 8, (new_MultiSigReplayProtection ''0xf00'')\<lparr>nonce := Some 8\<rparr>)"
proof -
  let ?s = "new_MultiSigReplayProtection ''0xf00''"
  have a: "getNonce \<lparr>getCode = (\<lambda>_. Inr ''0x'')\<rparr> ?s
     = (Inr 0, ?s\<lparr>nonce := Some 0, requests := [GetCode]\<rparr>)"
    using getNonce_zero_then_increment [where s = ?s
        and env = "\<lparr>getCode = (\<lambda>_. Inr ''0x'')\<rparr>"]
    by (simp add: new_MultiSigReplayProtection_def)
  have b: "getNonce \<lparr>getCode = (\<lambda>_. Inl (ExternalQueryError ''offline''))\<rparr>
       (?s\<lparr>nonce := Some 7\<rparr>)
     = (Inr 8, ?s\<lparr>nonce := Some 8\<rparr>)"
    using getNonce_zero_then_increment [where s = "?s\<lparr>nonce := Some 7\<rparr>" and v = 7
        and env = "\<lparr>getCode = (\<lambda>_. Inl (ExternalQueryError ''offline''))\<rparr>"]
    by (simp add: new_MultiSigReplayProtection_def)
  from a b show ?thesis by blast
qed

text \<open>
  With the lock free and nobody queued, \<^verbatim>\<open>getEncodedReplayProtection\<close> is \<^verbatim>\<open>getNonce\<close>
  followed by the encoding, and it leaves the lock as it found it.  With \<^verbatim>\<open>nonce\<close> unset,
  \<^verbatim>\<open>getNonce\<close> asks for the code, and returns a value only when the code is \<^verbatim>\<open>"0x"\<close>.
\<close>

lemma getEncodedReplayProtection_free:
  "lock s = new_Lock \<Longrightarrow>
   getEncodedReplayProtection t env s
     = (Settled (encode (fst (getNonce env s))), snd (getNonce env s))"
  by (simp add: getEncodedReplayProtection_def Lock_acquire_def new_Lock_def
      release_finally_def Lock_release_def getNonce_def Let_def
      split: option.splits sum.splits)

lemma getNonce_unset:
  assumes "nonce s = None"
  shows "requests (snd (getNonce env s)) = requests s @ [GetCode]"
    and "lock (snd (getNonce env s)) = lock s"
    and "forwarderAddress (snd (getNonce env s)) = forwarderAddress s"
    and "fst (getNonce env s) = Inr v \<longleftrightarrow> getCode env (forwarderAddress s) = Inr ''0x'' \<and> v = 0"
    and "getCode env (forwarderAddress s) = Inr ''0x'' \<Longrightarrow>
         getNonce env s = (Inr 0, s\<lparr>nonce := Some 0, requests := requests s @ [GetCode]\<rparr>)"
    and "getCode env (forwarderAddress s) = Inl e \<Longrightarrow>
         getNonce env s = (Inl e, s\<lparr>requests := requests s @ [GetCode]\<rparr>)"
  using assms by (auto simp: getNonce_def Let_def split: sum.splits)

text \<open>
  C7.  The first call on an object whose \<^verbatim>\<open>nonce\<close> is unset and whose lock is free: if
  the query \<^verbatim>\<open>getCode\<close> of the provider fails with \<open>e\<close>, the call rejects with that same
  \<open>e\<close>, \<^verbatim>\<open>nonce\<close> is still unset and the lock is free again with nobody queued.  Every
  later call that returns a value has asked for the code again and returns the value \<open>0\<close>
  resolved from that answer, not an increment; and a later call to which the provider
  answers \<^verbatim>\<open>"0x"\<close> does return so.
\<close>

theorem first_query_failure:
  assumes "nonce s = None" and "lock s = new_Lock"
    and "getCode env (forwarderAddress s) = Inl e"
    and "getEncodedReplayProtection t env s = (r, s')"
  shows "r = Settled (Inl e) \<and> nonce s' = None \<and> \<not> mLocked (lock s') \<and>
         waiters (lock s') = [] \<and>
         (\<forall>t2 env2 v s2.
            getEncodedReplayProtection t2 env2 s' = (Settled (Inr v), s2) \<longrightarrow>
            getCode env2 (forwarderAddress s) = Inr ''0x'' \<and> v = Abi_uint 0 \<and>
            s2 = s'\<lparr>nonce := Some 0, requests := requests s' @ [GetCode]\<rparr>) \<and>
         (\<forall>t2 env2.
            getCode env2 (forwarderAddress s) = Inr ''0x'' \<longrightarrow>
            getEncodedReplayProtection t2 env2 s'
              = (Settled (Inr (Abi_uint 0)),
                 s'\<lparr>nonce := Some 0, requests := requests s' @ [GetCode]\<rparr>))"
proof -
  note f = getNonce_unset(6) [OF assms(1,3)]
  from assms(4) have r: "r = Settled (encode (fst (getNonce env s)))"
    and s': "s' = snd (getNonce env s)"
    by (simp_all add: getEncodedReplayProtection_free [OF assms(2)])
  have r': "r = Settled (Inl e)" using r f by simp
  have s'': "s' = s\<lparr>requests := requests s @ [GetCode]\<rparr>" using s' f by simp
  have n': "nonce s' = None" using s'' assms(1) by simp
  have l': "lock s' = new_Lock" using s'' assms(2) by simp
  have a': "forwarderAddress s' = forwarderAddress s" using s'' by simp
  have zero: "getEncodedReplayProtection t2 env2 s'
      = (Settled (Inr (Abi_uint 0)), s'\<lparr>nonce := Some 0, requests := requests s' @ [GetCode]\<rparr>)"
    if "getCode env2 (forwarderAddress s) = Inr ''0x''" for t2 env2
    using that getNonce_unset(5) [OF n', of env2] a'
    by (simp add: getEncodedReplayProtection_free [OF l'] abi_encode_uint_def)
  have only: "getCode env2 (forwarderAddress s) = Inr ''0x'' \<and> v = Abi_uint 0 \<and>
        s2 = s'\<lparr>nonce := Some 0, requests := requests s' @ [GetCode]\<rparr>"
    if h: "getEncodedReplayProtection t2 env2 s' = (Settled (Inr v), s2)" for t2 env2 v s2
  proof -
    from h have e: "encode (fst (getNonce env2 s')) = Inr v"
      by (simp add: getEncodedReplayProtection_free [OF l'])
    then obtain n where n: "fst (getNonce env2 s') = Inr n" by (cases "fst (getNonce env2 s')") auto
    with getNonce_unset(4) [OF n', of env2 n] a'
    have c: "getCode env2 (forwarderAddress s) = Inr ''0x''" and n0: "n = 0" by simp_all
    from zero [OF c, of t2] h show ?thesis using c by simp
  qed
  from r' n' l' zero only show ?thesis by (simp add: new_Lock_def)
qed

theorem first_query_failure_witness:
  "getEncodedReplayProtection 0 \<lparr>getCode = (\<lambda>_. Inl (ExternalQueryError ''timeout''))\<rparr>
      (new_MultiSigReplayProtection ''0xf00'')
     = (Settled (Inl (ExternalQueryError ''timeout'')),
        (new_MultiSigReplayProtection ''0xf00'')\<lparr>requests := [GetCode]\<rparr>) \<and>
   getEncodedReplayProtection 1 \<lparr>getCode = (\<lambda>_. Inr ''0x'')\<rparr>
      ((new_MultiSigReplayProtection ''0xf00'')\<lparr>requests := [GetCode]\<rparr>)
     = (Settled (Inr (Abi_uint 0)),
        (new_MultiSigReplayProtection ''0xf00'')
          \<lparr>nonce := Some 0, requests := [GetCode, GetCode]\<rparr>)"
proof -
  let ?s = "new_MultiSigReplayProtection ''0xf00''"
  let ?bad = "\<lparr>getCode = (\<lambda>_. Inl (ExternalQueryError ''timeout''))\<rparr>"
  let ?good = "\<lparr>getCode = (\<lambda>_. Inr ''0x'')\<rparr>"
  have run: "getEncodedReplayProtection 0 ?bad ?s
      = (Settled (Inl (ExternalQueryError ''timeout'')), ?s\<lparr>requests := [GetCode]\<rparr>)"
    by (simp add: getEncodedReplayProtection_def Lock_acquire_def new_Lock_def
        release_finally_def Lock_release_def getNonce_def Let_def
        new_MultiSigReplayProtection_def)
  have th: "\<forall>t2 env2.
            getCode env2 (forwarderAddress ?s) = Inr ''0x'' \<longrightarrow>
            getEncodedReplayProtection t2 env2 (?s\<lparr>requests := [GetCode]\<rparr>)
              = (Settled (Inr (Abi_uint 0)),
                 ?s\<lparr>requests := [GetCode], nonce := Some 0,
                     requests := requests (?s\<lparr>requests := [GetCode]\<rparr>) @ [GetCode]\<rparr>)"
    using first_query_failure [where s = ?s and env = ?bad and t = 0
        and e = "ExternalQueryError ''timeout''"
        and r = "Settled (Inl (ExternalQueryError ''timeout''))"
        and s' = "?s\<lparr>requests := [GetCode]\<rparr>", OF _ _ _ run]
    by (simp add: new_MultiSigReplayProtection_def)
  have "getEncodedReplayProtection 1 ?good (?s\<lparr>requests := [GetCode]\<rparr>)
      = (Settled (Inr (Abi_uint 0)),
         ?s\<lparr>requests := [GetCode], nonce := Some 0,
             requests := requests (?s\<lparr>requests := [GetCode]\<rparr>) @ [GetCode]\<rparr>)"
    using th [rule_format, of ?good 1]
    by (simp add: new_MultiSigReplayProtection_def)
  with run show ?thesis by (simp add: new_MultiSigReplayProtection_def)
qed

text \<open>
  C9.  For a deployed account (the provider reports code other than \<^verbatim>\<open>"0x"\<close> at the
  forwarder address), two calls made one after the other on a new object both reject with
  the \<^verbatim>\<open>ReferenceError\<close> of \<^verbatim>\<open>new GnosisSafeFactory\<close>, whatever the contract would report:
  the contract is never asked, \<^verbatim>\<open>nonce\<close> stays unset, and the second call asks for the code
  again.  No call returns \<open>42\<close> or \<open>43\<close>.
\<close>

theorem sequential_calls_deployed_rejected:
  "getEncodedReplayProtection 0 \<lparr>getCode = (\<lambda>_. Inr ''0x6080'')\<rparr>
      (new_MultiSigReplayProtection ''0xf00'')
     = (Settled (Inl (ReferenceError ''GnosisSafeFactory is not defined'')),
        (new_MultiSigReplayProtection ''0xf00'')\<lparr>requests := [GetCode]\<rparr>) \<and>
   getEncodedReplayProtection 1 \<lparr>getCode = (\<lambda>_. Inr ''0x6080'')\<rparr>
      ((new_MultiSigReplayProtection ''0xf00'')\<lparr>requests := [GetCode]\<rparr>)
     = (Settled (Inl (ReferenceError ''GnosisSafeFactory is not defined'')),
        (new_MultiSigReplayProtection ''0xf00'')\<lparr>requests := [GetCode, GetCode]\<rparr>)"
  by (simp add: getEncodedReplayProtection_def Lock_acquire_def new_Lock_def
      release_finally_def Lock_release_def getNonce_def Let_def
      new_MultiSigReplayProtection_def)

text \<open>
  C10.  When the provider reports the code \<^verbatim>\<open>"0x0"\<close> at the forwarder address, the first
  \<^verbatim>\<open>getNonce\<close> of a new object takes the deployed branch, where it rejects with the
  \<^verbatim>\<open>ReferenceError\<close> of \<^verbatim>\<open>new GnosisSafeFactory\<close> before the contract is asked; and
  \<^verbatim>\<open>accessNonceStore\<close> takes the code for empty, where it rejects with the error of
  \<^verbatim>\<open>new BigNumber("0")\<close> instead of returning \<open>0\<close>.
\<close>

theorem deployment_checks_on_0x0:
  "getNonce (env\<lparr>getCode := (\<lambda>_. Inr ''0x0'')\<rparr>) (new_MultiSigReplayProtection fwd)
     = (Inl (ReferenceError ''GnosisSafeFactory is not defined''),
        (new_MultiSigReplayProtection fwd)\<lparr>requests := [GetCode]\<rparr>) \<and>
   accessNonceStore (env\<lparr>getCode := (\<lambda>_. Inr ''0x0'')\<rparr>) g index
     = Inl (EthersError ''cannot call constructor directly; use BigNumber.from'')"
  by (simp add: getNonce_def accessNonceStore_def Let_def new_MultiSigReplayProtection_def)

section \<open>Properties of concurrent calls of getEncodedReplayProtection\<close>

text \<open>
  The invariant holds of a new object, and every job keeps it: a call is issued, a call
  is continued, or the answer of the provider arrives, in any order the scheduler and the
  provider choose.  Fewer than \<open>2^53\<close> calls are issued, so that the stored nonce is
  incremented exactly and the encoder accepts it.
\<close>

lemma consecutive_Suc: "consecutive a (Suc m) = consecutive a m @ [a + int m]"
  by (simp add: consecutive_def)

lemma length_consecutive: "length (consecutive a m) = m"
  by (simp add: consecutive_def)

lemma good_granted: "good outs [Granted] nc reqs b = good outs [] nc reqs b"
  by (simp add: good_def split: option.splits)

lemma good_start_query:
  "good outs [Granted] None reqs b \<Longrightarrow> good outs [AwaitGetCode] None (reqs @ [GetCode]) b"
  by (auto simp: good_def)

lemma good_increment:
  assumes "good outs [Granted] (Some v) reqs b" and "int (length outs) < 2 ^ 53"
  shows "good outs [AwaitGetNonce (Inr (number_succ v))] (Some (number_succ v)) reqs b"
proof -
  from assms(1) obtain errs m
    where o: "outs = map Inl errs @ map (\<lambda>n. Inr (Abi_uint n)) (consecutive 0 m)"
      and v: "v = int m - 1" and e: "length errs \<le> b"
      and c: "count_list reqs GetCode \<le> length errs + 1"
    by (auto simp: good_def)
  from o have "m \<le> length outs" by (simp add: length_consecutive)
  with assms(2) v have "\<bar>v\<bar> < 2 ^ 53" by simp
  then have "number_succ v = int m" using v by (simp add: number_succ_safe)
  with o e c show ?thesis
    unfolding good_def by (auto intro!: exI [of _ errs] exI [of _ m])
qed

lemma good_code:
  assumes "good outs [AwaitGetCode] nc reqs b"
  shows "nc = None"
    and "good outs [AwaitGetNonce (Inl e)] None reqs (Suc b)"
    and "good outs [AwaitGetNonce (Inr 0)] (Some 0) reqs b"
proof -
  from assms show n: "nc = None" by (auto simp: good_def split: option.splits)
  with assms obtain errs where o: "outs = map Inl errs" and e: "length errs \<le> b"
    and c: "count_list reqs GetCode \<le> length errs + 1"
    by (auto simp: good_def consecutive_def)
  from o e c show "good outs [AwaitGetNonce (Inl e)] None reqs (Suc b)"
    unfolding good_def by (auto simp: consecutive_def intro!: exI [of _ errs])
  have "outs = map Inl errs @ map (\<lambda>n. Inr (Abi_uint n)) (consecutive 0 0)"
    using o by (simp add: consecutive_def)
  with e c show "good outs [AwaitGetNonce (Inr 0)] (Some 0) reqs b"
    unfolding good_def by (auto intro!: exI [of _ errs] exI [of _ "0::nat"])
qed

lemma good_finish:
  assumes "good outs [AwaitGetNonce r] nc reqs b" and "int (length outs) + 1 < 2 ^ 53"
  shows "good (outs @ [encode r]) [] nc reqs b"
proof (cases r)
  case (Inl e)
  with assms(1) obtain errs where n: "nc = None" and o: "outs = map Inl errs"
    and e: "length errs + 1 \<le> b"
    and c: "count_list reqs GetCode \<le> length errs + 1"
    by (auto simp: good_def consecutive_def split: option.splits)
  have "outs @ [encode r] = map Inl (errs @ [e]) @
      map (\<lambda>n. Inr (Abi_uint n)) (consecutive 0 0)"
    using o Inl by (simp add: consecutive_def)
  with n e c show ?thesis
    unfolding good_def by (auto intro!: exI [of _ "errs @ [e]"] exI [of _ "0::nat"])
next
  case (Inr v)
  with assms(1) obtain errs m where n: "nc = Some v"
    and o: "outs = map Inl errs @ map (\<lambda>n. Inr (Abi_uint n)) (consecutive 0 m)"
    and v: "v = int m" and e: "length errs \<le> b"
    and c: "count_list reqs GetCode \<le> length errs + 1"
    by (auto simp: good_def split: option.splits)
  from o have "m \<le> length outs" by (simp add: length_consecutive)
  with assms(2) v have "0 \<le> v" "v < 2 ^ 53 - 1" by simp_all
  then have enc: "encode r = Inr (Abi_uint (int m))"
    using Inr v by (simp add: abi_encode_uint_accepts)
  have "outs @ [encode r]
      = map Inl errs @ map (\<lambda>n. Inr (Abi_uint n)) (consecutive 0 (Suc m))"
    using o enc by (simp add: consecutive_Suc)
  with n v e c show ?thesis
    unfolding good_def by (auto intro!: exI [of _ errs] exI [of _ "Suc m"])
qed

lemma structD:
  assumes "struct D H outs arr l c"
  shows "arr = D @ H @ waiters l" and "distinct arr"
    and "\<forall>t. t \<notin> set arr \<longrightarrow> c t = Idle"
    and "map c D = map Returned outs"
    and "\<forall>t \<in> set (waiters l). c t = Queued"
    and "if mLocked l then (\<exists>h. H = [h] \<and> in_cs (c h)) else H = [] \<and> waiters l = []"
  using assms unfolding struct_def by blast+

lemma structI:
  assumes "arr = D @ H @ waiters l" and "distinct arr"
    and "\<forall>t. t \<notin> set arr \<longrightarrow> c t = Idle"
    and "map c D = map Returned outs"
    and "\<forall>t \<in> set (waiters l). c t = Queued"
    and "if mLocked l then (\<exists>h. H = [h] \<and> in_cs (c h)) else H = [] \<and> waiters l = []"
  shows "struct D H outs arr l c"
  using assms unfolding struct_def by blast

lemma struct_not_idle:
  assumes "struct D H outs arr l c" and "t \<in> set arr"
  shows "c t \<noteq> Idle"
proof -
  note s = structD [OF assms(1)]
  from assms(2) s(1) consider "t \<in> set D" | "t \<in> set H" | "t \<in> set (waiters l)" by auto
  then show ?thesis
  proof cases
    case 1
    then have "c t \<in> set (map c D)" by simp
    with s(4) show ?thesis by auto
  next
    case 2
    with s(6) show ?thesis by (auto simp: in_cs_def split: if_splits)
  next
    case 3
    with s(5) show ?thesis by auto
  qed
qed

lemma struct_holder:
  assumes "struct D H outs arr l c" and "in_cs (c t)"
  shows "H = [t]" and "mLocked l"
proof -
  note s = structD [OF assms(1)]
  have nD: "t \<notin> set D"
  proof
    assume "t \<in> set D"
    then have "c t \<in> set (map c D)" by simp
    with s(4) assms(2) show False by (auto simp: in_cs_def)
  qed
  have nW: "t \<notin> set (waiters l)" using s(5) assms(2) by (auto simp: in_cs_def)
  have "t \<in> set arr" using s(3) assms(2) by (auto simp: in_cs_def)
  with s(1) nD nW have tH: "t \<in> set H" by simp
  with s(6) show "H = [t]" and "mLocked l" by (auto split: if_splits)
qed

lemma struct_call_free:
  assumes "struct D H outs arr l c" and "c t = Idle" and "\<not> mLocked l"
  shows "struct D [t] outs (arr @ [t]) (l\<lparr>mLocked := True\<rparr>) (c(t := Granted))"
    and "H = []"
proof -
  note s = structD [OF assms(1)]
  from s(6) assms(3) have h: "H = []" and w: "waiters l = []" by simp_all
  show "H = []" by (rule h)
  have nt: "t \<notin> set arr" using struct_not_idle [OF assms(1)] assms(2) by blast
  from s(1) h w have arr: "arr = D" by simp
  have mD: "map (c(t := Granted)) D = map c D" using nt arr by simp
  show "struct D [t] outs (arr @ [t]) (l\<lparr>mLocked := True\<rparr>) (c(t := Granted))"
  proof (rule structI)
    show "arr @ [t] = D @ [t] @ waiters (l\<lparr>mLocked := True\<rparr>)" using arr w by simp
    show "distinct (arr @ [t])" using s(2) nt by simp
    show "\<forall>x. x \<notin> set (arr @ [t]) \<longrightarrow> (c(t := Granted)) x = Idle" using s(3) by simp
    show "map (c(t := Granted)) D = map Returned outs" using mD s(4) by simp
    show "\<forall>x \<in> set (waiters (l\<lparr>mLocked := True\<rparr>)). (c(t := Granted)) x = Queued"
      using w by simp
    show "if mLocked (l\<lparr>mLocked := True\<rparr>)
          then \<exists>h. [t] = [h] \<and> in_cs ((c(t := Granted)) h)
          else [t] = [] \<and> waiters (l\<lparr>mLocked := True\<rparr>) = []"
      by (simp add: in_cs_def)
  qed
qed

lemma struct_call_locked:
  assumes "struct D H outs arr l c" and "c t = Idle" and "mLocked l"
  shows "struct D H outs (arr @ [t]) (l\<lparr>waiters := waiters l @ [t]\<rparr>) (c(t := Queued))"
    and "map (c(t := Queued)) H = map c H"
proof -
  note s = structD [OF assms(1)]
  have nt: "t \<notin> set arr" using struct_not_idle [OF assms(1)] assms(2) by blast
  from nt s(1) have ntD: "t \<notin> set D" and ntH: "t \<notin> set H" and ntW: "t \<notin> set (waiters l)"
    by simp_all
  have mD: "map (c(t := Queued)) D = map c D" using ntD by simp
  show mH: "map (c(t := Queued)) H = map c H" using ntH by simp
  from s(6) assms(3) obtain h where hh: "H = [h]" "in_cs (c h)" by auto
  with ntH have "h \<noteq> t" by auto
  with hh have ih: "in_cs ((c(t := Queued)) h)" by simp
  show "struct D H outs (arr @ [t]) (l\<lparr>waiters := waiters l @ [t]\<rparr>) (c(t := Queued))"
  proof (rule structI)
    show "arr @ [t] = D @ H @ waiters (l\<lparr>waiters := waiters l @ [t]\<rparr>)" using s(1) by simp
    show "distinct (arr @ [t])" using s(2) nt by simp
    show "\<forall>x. x \<notin> set (arr @ [t]) \<longrightarrow> (c(t := Queued)) x = Idle" using s(3) by simp
    show "map (c(t := Queued)) D = map Returned outs" using mD s(4) by simp
    show "\<forall>x \<in> set (waiters (l\<lparr>waiters := waiters l @ [t]\<rparr>)). (c(t := Queued)) x = Queued"
      using s(5) by simp
    show "if mLocked (l\<lparr>waiters := waiters l @ [t]\<rparr>)
          then \<exists>h. H = [h] \<and> in_cs ((c(t := Queued)) h)
          else H = [] \<and> waiters (l\<lparr>waiters := waiters l @ [t]\<rparr>) = []"
      using assms(3) hh(1) ih by simp
  qed
qed

lemma struct_move:
  assumes "struct D [t] outs arr l c" and "in_cs p"
  shows "struct D [t] outs arr l (c(t := p))"
proof -
  note s = structD [OF assms(1)]
  from s(1,2) have ntD: "t \<notin> set D" and ntW: "t \<notin> set (waiters l)" by auto
  have mD: "map (c(t := p)) D = map c D" using ntD by simp
  from s(6) have L: "mLocked l" by (auto split: if_splits)
  show ?thesis
  proof (rule structI)
    show "arr = D @ [t] @ waiters l" by (rule s(1))
    show "distinct arr" by (rule s(2))
    show "\<forall>x. x \<notin> set arr \<longrightarrow> (c(t := p)) x = Idle" using s(3) s(1) by auto
    show "map (c(t := p)) D = map Returned outs" using mD s(4) by simp
    show "\<forall>x \<in> set (waiters l). (c(t := p)) x = Queued" using s(5) ntW by auto
    show "if mLocked l then \<exists>h. [t] = [h] \<and> in_cs ((c(t := p)) h)
          else [t] = [] \<and> waiters l = []"
      using L assms(2) by simp
  qed
qed

lemma struct_finish_empty:
  assumes "struct D [t] outs arr l c" and "waiters l = []"
  shows "struct (D @ [t]) [] (outs @ [r]) arr (l\<lparr>mLocked := False\<rparr>) (c(t := Returned r))"
proof -
  note s = structD [OF assms(1)]
  from s(1) assms(2) have arr: "arr = D @ [t]" by simp
  from arr s(2) have ntD: "t \<notin> set D" by auto
  have mD: "map (c(t := Returned r)) D = map c D" using ntD by simp
  show ?thesis
  proof (rule structI)
    show "arr = (D @ [t]) @ [] @ waiters (l\<lparr>mLocked := False\<rparr>)" using arr assms(2) by simp
    show "distinct arr" by (rule s(2))
    show "\<forall>x. x \<notin> set arr \<longrightarrow> (c(t := Returned r)) x = Idle" using s(3) arr by auto
    show "map (c(t := Returned r)) (D @ [t]) = map Returned (outs @ [r])"
      using mD s(4) by simp
    show "\<forall>x \<in> set (waiters (l\<lparr>mLocked := False\<rparr>)). (c(t := Returned r)) x = Queued"
      using assms(2) by simp
    show "if mLocked (l\<lparr>mLocked := False\<rparr>)
          then \<exists>h. [] = [h] \<and> in_cs ((c(t := Returned r)) h)
          else [] = [] \<and> waiters (l\<lparr>mLocked := False\<rparr>) = []"
      using assms(2) by simp
  qed
qed

lemma struct_finish_handoff:
  assumes "struct D [t] outs arr l c" and "waiters l = w # ws"
  shows "struct (D @ [t]) [w] (outs @ [r]) arr (l\<lparr>waiters := ws\<rparr>)
           (c(t := Returned r, w := Granted))"
proof -
  note s = structD [OF assms(1)]
  from s(1) assms(2) have arr: "arr = D @ [t] @ w # ws" by simp
  from s(6) have L: "mLocked l" by (auto split: if_splits)
  from arr s(2) have ntD: "t \<notin> set D" and nwD: "w \<notin> set D" and wt: "w \<noteq> t"
    and nwW: "w \<notin> set ws" and ntW: "t \<notin> set ws" by auto
  have mD: "map (c(t := Returned r, w := Granted)) D = map c D" using ntD nwD by simp
  show ?thesis
  proof (rule structI)
    show "arr = (D @ [t]) @ [w] @ waiters (l\<lparr>waiters := ws\<rparr>)" using arr by simp
    show "distinct arr" by (rule s(2))
    show "\<forall>x. x \<notin> set arr \<longrightarrow> (c(t := Returned r, w := Granted)) x = Idle"
      using s(3) arr by auto
    show "map (c(t := Returned r, w := Granted)) (D @ [t]) = map Returned (outs @ [r])"
      using mD s(4) wt by simp
    show "\<forall>x \<in> set (waiters (l\<lparr>waiters := ws\<rparr>)).
            (c(t := Returned r, w := Granted)) x = Queued"
      using s(5) assms(2) nwW ntW by auto
    show "if mLocked (l\<lparr>waiters := ws\<rparr>)
          then \<exists>h. [w] = [h] \<and> in_cs ((c(t := Returned r, w := Granted)) h)
          else [w] = [] \<and> waiters (l\<lparr>waiters := ws\<rparr>) = []"
      using L by (simp add: in_cs_def)
  qed
qed

lemma finish_empty:
  "mLocked (lock s) \<Longrightarrow> waiters (lock s) = [] \<Longrightarrow>
   finish t r s = s\<lparr>lock := (lock s)\<lparr>mLocked := False\<rparr>, calls := (calls s)(t := Returned r)\<rparr>"
  by (simp add: finish_def release_finally_def Lock_release_def)

lemma finish_handoff:
  "mLocked (lock s) \<Longrightarrow> waiters (lock s) = w # ws \<Longrightarrow>
   finish t r s = s\<lparr>lock := (lock s)\<lparr>waiters := ws\<rparr>,
                    calls := (calls s)(t := Returned r, w := Granted)\<rparr>"
  by (simp add: finish_def release_finally_def Lock_release_def)

lemma struct_length:
  assumes "struct D [t] outs arr l c"
  shows "length outs < length arr"
proof -
  note s = structD [OF assms]
  have "length D = length outs" using s(4) by (metis length_map)
  with s(1) show ?thesis by simp
qed

lemma consistent_holder:
  assumes "consistent arr b s" and "calls s t = p" and "in_cs p"
  obtains D outs where "struct D [t] outs arr (lock s) (calls s)"
    and "good outs [p] (nonce s) (requests s) b"
proof -
  from assms(1) obtain D H outs where st: "struct D H outs arr (lock s) (calls s)"
    and gd: "good outs (map (calls s) H) (nonce s) (requests s) b"
    unfolding consistent_def by blast
  have cs: "in_cs (calls s t)" using assms(2,3) by simp
  note h = struct_holder [OF st cs]
  from st h(1) have "struct D [t] outs arr (lock s) (calls s)" by simp
  moreover from gd h(1) assms(2) have "good outs [p] (nonce s) (requests s) b" by simp
  ultimately show ?thesis by (rule that)
qed

lemma consistent_finish:
  assumes "consistent arr b s" and "calls s t = AwaitGetNonce r"
    and "int (length arr) < 2 ^ 53"
  shows "consistent arr b (finish t (encode r) s)"
proof -
  have cs: "in_cs (AwaitGetNonce r)" by (simp add: in_cs_def)
  from consistent_holder [OF assms(1,2) cs] obtain D outs
    where st: "struct D [t] outs arr (lock s) (calls s)"
      and gd: "good outs [AwaitGetNonce r] (nonce s) (requests s) b" by blast
  have L: "mLocked (lock s)" using structD(6) [OF st] by (auto split: if_splits)
  have "int (length outs) + 1 < 2 ^ 53" using struct_length [OF st] assms(3) by simp
  then have g1: "good (outs @ [encode r]) [] (nonce s) (requests s) b"
    by (rule good_finish [OF gd])
  show ?thesis
  proof (cases "waiters (lock s)")
    case Nil
    have "struct (D @ [t]) [] (outs @ [encode r]) arr ((lock s)\<lparr>mLocked := False\<rparr>)
            ((calls s)(t := Returned (encode r)))"
      by (rule struct_finish_empty [OF st Nil])
    with g1 show ?thesis
      unfolding consistent_def finish_empty [OF L Nil]
      by (intro exI [of _ "D @ [t]"] exI [of _ "[]"] exI [of _ "outs @ [encode r]"]) simp
  next
    case (Cons w ws)
    have s2: "struct (D @ [t]) [w] (outs @ [encode r]) arr ((lock s)\<lparr>waiters := ws\<rparr>)
            ((calls s)(t := Returned (encode r), w := Granted))"
      by (rule struct_finish_handoff [OF st Cons])
    from g1 have "good (outs @ [encode r]) [Granted] (nonce s) (requests s) b"
      by (simp add: good_granted)
    with s2 show ?thesis
      unfolding consistent_def finish_handoff [OF L Cons]
      by (intro exI [of _ "D @ [t]"] exI [of _ "[w]"] exI [of _ "outs @ [encode r]"]) simp
  qed
qed

lemma consistent_move:
  assumes "struct D [t] outs arr (lock s) (calls s)" and "in_cs p"
    and "good outs [p] (nonce s') (requests s') b"
    and "lock s' = lock s" and "calls s' = (calls s)(t := p)"
  shows "consistent arr b s'"
proof -
  have "struct D [t] outs arr (lock s) ((calls s)(t := p))"
    by (rule struct_move [OF assms(1,2)])
  with assms(3,4,5) show ?thesis
    unfolding consistent_def
    by (intro exI [of _ D] exI [of _ "[t]"] exI [of _ outs]) simp
qed

lemma consistent_Call:
  assumes "consistent arr b s" and "step (Call t) s = Some s'"
  shows "consistent (arr @ [t]) b s'"
proof -
  from assms(2) have idle: "calls s t = Idle" by (simp split: if_splits)
  from assms(1) obtain D H outs where st: "struct D H outs arr (lock s) (calls s)"
    and gd: "good outs (map (calls s) H) (nonce s) (requests s) b"
    unfolding consistent_def by blast
  show ?thesis
  proof (cases "mLocked (lock s)")
    case False
    with assms(2) idle
    have s': "s' = s\<lparr>lock := (lock s)\<lparr>mLocked := True\<rparr>, calls := (calls s)(t := Granted)\<rparr>"
      by (simp add: Lock_acquire_def)
    note f = struct_call_free [OF st idle False]
    from gd f(2) have "good outs [Granted] (nonce s) (requests s) b"
      by (simp add: good_granted)
    with f(1) show ?thesis
      unfolding consistent_def s'
      by (intro exI [of _ D] exI [of _ "[t]"] exI [of _ outs]) simp
  next
    case True
    with assms(2) idle
    have s': "s' = s\<lparr>lock := (lock s)\<lparr>waiters := waiters (lock s) @ [t]\<rparr>,
                      calls := (calls s)(t := Queued)\<rparr>"
      by (simp add: Lock_acquire_def)
    note f = struct_call_locked [OF st idle True]
    have "good outs (map ((calls s)(t := Queued)) H) (nonce s) (requests s) b"
      unfolding f(2) by (rule gd)
    with f(1) show ?thesis
      unfolding consistent_def s'
      by (intro exI [of _ D] exI [of _ H] exI [of _ outs]) simp
  qed
qed

lemma consistent_Continue:
  assumes "consistent arr b s" and "step (Continue t) s = Some s'"
    and "int (length arr) < 2 ^ 53"
  shows "consistent arr b s'"
proof (cases "calls s t")
  case Granted
  have cs: "in_cs Granted" by (simp add: in_cs_def)
  from consistent_holder [OF assms(1) Granted cs] obtain D outs
    where st: "struct D [t] outs arr (lock s) (calls s)"
      and gd: "good outs [Granted] (nonce s) (requests s) b" by blast
  show ?thesis
  proof (cases "nonce s")
    case None
    with assms(2) Granted
    have s': "s' = s\<lparr>requests := requests s @ [GetCode],
                      calls := (calls s)(t := AwaitGetCode)\<rparr>" by simp
    have "good outs [AwaitGetCode] None (requests s @ [GetCode]) b"
      using gd None by (simp add: good_start_query)
    with None show ?thesis
      unfolding s' by (intro consistent_move [OF st]) (simp_all add: in_cs_def)
  next
    case (Some v)
    with assms(2) Granted
    have s': "s' = s\<lparr>nonce := Some (number_succ v),
                      calls := (calls s)(t := AwaitGetNonce (Inr (number_succ v)))\<rparr>" by simp
    have "int (length outs) < 2 ^ 53" using struct_length [OF st] assms(3) by simp
    with gd Some
    have "good outs [AwaitGetNonce (Inr (number_succ v))] (Some (number_succ v)) (requests s) b"
      by (simp add: good_increment)
    then show ?thesis
      unfolding s' by (intro consistent_move [OF st]) (simp_all add: in_cs_def)
  qed
next
  case (AwaitGetNonce r)
  with assms(2) have s': "s' = finish t (encode r) s" by simp
  show ?thesis unfolding s' by (rule consistent_finish [OF assms(1) AwaitGetNonce assms(3)])
qed (use assms(2) in simp_all)

lemma consistent_CodeReply:
  assumes "consistent arr b s" and "step (CodeReply t r) s = Some s'"
  shows "consistent arr (b + bad_replies [CodeReply t r]) s'"
proof -
  from assms(2) have pc: "calls s t = AwaitGetCode" by (simp split: if_splits)
  have cs: "in_cs AwaitGetCode" by (simp add: in_cs_def)
  from consistent_holder [OF assms(1) pc cs] obtain D outs
    where st: "struct D [t] outs arr (lock s) (calls s)"
      and gd: "good outs [AwaitGetCode] (nonce s) (requests s) b" by blast
  note g = good_code [OF gd]
  show ?thesis
  proof (cases r)
    case (Inl e)
    with assms(2) pc
    have s': "s' = s\<lparr>calls := (calls s)(t := AwaitGetNonce (Inl e))\<rparr>" by simp
    from g(2) [of e] g(1) Inl show ?thesis
      unfolding s' by (intro consistent_move [OF st]) (simp_all add: in_cs_def)
  next
    case (Inr isDeployed)
    show ?thesis
    proof (cases "isDeployed \<noteq> ''0x''")
      case True
      with assms(2) pc Inr
      have s': "s' = s\<lparr>calls := (calls s)
          (t := AwaitGetNonce (Inl (ReferenceError ''GnosisSafeFactory is not defined'')))\<rparr>"
        by simp
      from g(2) [of "ReferenceError ''GnosisSafeFactory is not defined''"] g(1) Inr True
      show ?thesis
        unfolding s' by (intro consistent_move [OF st]) (simp_all add: in_cs_def)
    next
      case False
      with assms(2) pc Inr
      have s': "s' = s\<lparr>nonce := Some 0, calls := (calls s)(t := AwaitGetNonce (Inr 0))\<rparr>"
        by simp
      from g(3) Inr False show ?thesis
        unfolding s' by (intro consistent_move [OF st]) (simp_all add: in_cs_def)
    qed
  qed
qed

lemma consistent_step:
  assumes "consistent arr b s" and "step e s = Some s'"
    and "int (length (arr @ called [e])) < 2 ^ 53"
  shows "consistent (arr @ called [e]) (b + bad_replies [e]) s'"
proof (cases e)
  case (Call t)
  with consistent_Call [OF assms(1)] assms(2) show ?thesis by simp
next
  case (Continue t)
  with consistent_Continue [OF assms(1)] assms(2,3) show ?thesis by simp
next
  case (CodeReply t r)
  with consistent_CodeReply [OF assms(1)] assms(2) show ?thesis by simp
qed

lemma called_Cons: "called (e # es) = called [e] @ called es"
  by (cases e) simp_all

lemma bad_replies_Cons: "bad_replies (e # es) = bad_replies [e] + bad_replies es"
  by (cases e) simp_all

lemma consistent_run:
  "consistent arr b s \<Longrightarrow> run es s = Some s' \<Longrightarrow>
   int (length (arr @ called es)) < 2 ^ 53 \<Longrightarrow>
   consistent (arr @ called es) (b + bad_replies es) s'"
proof (induction es arbitrary: arr b s)
  case Nil
  then show ?case by simp
next
  case (Cons e es)
  from Cons.prems(2) obtain s1 where st: "step e s = Some s1" and rn: "run es s1 = Some s'"
    by (auto split: option.splits)
  have len: "length (arr @ called (e # es)) = length ((arr @ called [e]) @ called es)"
    by (subst called_Cons) simp
  with Cons.prems(3) have b1: "int (length (arr @ called [e])) < 2 ^ 53" by simp
  have c1: "consistent (arr @ called [e]) (b + bad_replies [e]) s1"
    by (rule consistent_step [OF Cons.prems(1) st b1])
  have b2: "int (length ((arr @ called [e]) @ called es)) < 2 ^ 53"
    using Cons.prems(3) len by simp
  from Cons.IH [OF c1 rn b2] show ?case
    by (subst called_Cons, subst bad_replies_Cons) (simp add: add.assoc)
qed

lemma consistent_new: "consistent [] 0 (new_system fwd)"
  unfolding consistent_def
  by (intro exI [of _ "[]"])
     (simp add: struct_def good_def new_system_def new_Lock_def consecutive_def)

lemma no_bad_replies:
  "(\<forall>t r. CodeReply t r \<in> set es \<longrightarrow> r = Inr ''0x'') \<Longrightarrow> bad_replies es = 0"
proof (induction es)
  case Nil
  then show ?case by simp
next
  case (Cons e es)
  then show ?case by (cases e) auto
qed

text \<open>
  When every answer of the provider is the code \<^verbatim>\<open>"0x"\<close>: the calls that have returned are
  the first ones issued, their results are \<open>0, 1, 2, \<dots>\<close> in the order of issue, and the code
  was requested at most once.
\<close>

lemma returned_prefix:
  assumes "run es (new_system fwd) = Some s"
    and "\<forall>t r. CodeReply t r \<in> set es \<longrightarrow> r = Inr ''0x''"
    and "int (length (called es)) < 2 ^ 53"
  shows "\<exists>m. m \<le> length (called es) \<and>
           map (calls s) (take m (called es))
             = map (\<lambda>n. Returned (Inr (Abi_uint n))) (consecutive 0 m) \<and>
           (\<forall>t \<in> set (drop m (called es)). \<forall>r. calls s t \<noteq> Returned r)"
    and "distinct (called es)"
    and "count_list (requests s) GetCode \<le> 1"
proof -
  let ?arr = "called es"
  have "int (length ([] @ ?arr)) < 2 ^ 53" using assms(3) by simp
  then have "consistent ([] @ ?arr) (0 + bad_replies es) s"
    by (rule consistent_run [OF consistent_new assms(1)])
  then have "consistent ?arr 0 s" using no_bad_replies [OF assms(2)] by simp
  then obtain D H outs where st: "struct D H outs ?arr (lock s) (calls s)"
    and gd: "good outs (map (calls s) H) (nonce s) (requests s) 0"
    unfolding consistent_def by auto
  note sd = structD [OF st]
  show "distinct ?arr" by (rule sd(2))
  from gd obtain m where o: "outs = map (\<lambda>n. Inr (Abi_uint n)) (consecutive 0 m)"
    and c: "count_list (requests s) GetCode \<le> 1"
    by (cases "nonce s"; cases "map (calls s) H" rule: asked.cases) (auto simp: good_def)
  show "count_list (requests s) GetCode \<le> 1" by (rule c)
  have lD: "length D = m"
    using sd(4) o by (metis length_map length_consecutive)
  have tk: "take m ?arr = D" and dr: "drop m ?arr = H @ waiters (lock s)"
    using sd(1) lD by simp_all
  have "map (calls s) (take m ?arr)
      = map (\<lambda>n. Returned (Inr (Abi_uint n))) (consecutive 0 m)"
    unfolding tk sd(4) o by simp
  moreover have "\<forall>t \<in> set (drop m ?arr). \<forall>r. calls s t \<noteq> Returned r"
  proof
    fix t assume "t \<in> set (drop m ?arr)"
    with dr have "t \<in> set H \<or> t \<in> set (waiters (lock s))" by simp
    then show "\<forall>r. calls s t \<noteq> Returned r"
    proof
      assume "t \<in> set H"
      with sd(6) have "in_cs (calls s t)" by (auto split: if_splits)
      then show ?thesis by (auto simp: in_cs_def)
    next
      assume "t \<in> set (waiters (lock s))"
      with sd(5) show ?thesis by auto
    qed
  qed
  moreover have "m \<le> length ?arr" using sd(1) lD by simp
  ultimately show "\<exists>m. m \<le> length ?arr \<and>
           map (calls s) (take m ?arr)
             = map (\<lambda>n. Returned (Inr (Abi_uint n))) (consecutive 0 m) \<and>
           (\<forall>t \<in> set (drop m ?arr). \<forall>r. calls s t \<noteq> Returned r)"
    by blast
qed

text \<open>
  No such run gets stuck before every call has returned: the call that holds the lock can
  be continued, or waits for the answer of the provider.  So once no call can be continued
  and no answer is awaited, all the calls issued have returned.
\<close>

lemma in_cs_enabled:
  assumes "in_cs (calls s h)"
  shows "step (Continue h) s \<noteq> None \<or> step (CodeReply h (Inr ''0x'')) s \<noteq> None"
  using assms by (cases "calls s h") (auto simp: in_cs_def split: option.splits)

lemma calls_progress:
  assumes "run es (new_system fwd) = Some s"
    and "\<forall>t r. CodeReply t r \<in> set es \<longrightarrow> r = Inr ''0x''"
    and "int (length (called es)) < 2 ^ 53"
    and "\<forall>h. step (Continue h) s = None \<and> step (CodeReply h (Inr ''0x'')) s = None"
  shows "map (calls s) (called es)
           = map (\<lambda>n. Returned (Inr (Abi_uint n))) (consecutive 0 (length (called es)))"
proof -
  let ?arr = "called es"
  have "int (length ([] @ ?arr)) < 2 ^ 53" using assms(3) by simp
  then have "consistent ([] @ ?arr) (0 + bad_replies es) s"
    by (rule consistent_run [OF consistent_new assms(1)])
  then have "consistent ?arr 0 s" using no_bad_replies [OF assms(2)] by simp
  then obtain D H outs where st: "struct D H outs ?arr (lock s) (calls s)"
    and gd: "good outs (map (calls s) H) (nonce s) (requests s) 0"
    unfolding consistent_def by auto
  note sd = structD [OF st]
  have unlocked: "\<not> mLocked (lock s)"
  proof
    assume "mLocked (lock s)"
    with sd(6) obtain h where "in_cs (calls s h)" by auto
    from in_cs_enabled [OF this] assms(4) show False by simp
  qed
  with sd(6) have "H = []" and "waiters (lock s) = []" by simp_all
  with sd(1) have arr: "?arr = D" by simp
  from gd obtain m where o: "outs = map (\<lambda>n. Inr (Abi_uint n)) (consecutive 0 m)"
    by (cases "nonce s"; cases "map (calls s) H" rule: asked.cases) (auto simp: good_def)
  have "length D = m"
    using sd(4) o by (metis length_map length_consecutive)
  with arr have m: "m = length ?arr" by simp
  have "map (calls s) ?arr = map (calls s) D" using arr by simp
  also have "\<dots> = map (\<lambda>n. Returned (Inr (Abi_uint n))) (consecutive 0 m)"
    unfolding sd(4) o by simp
  finally show ?thesis unfolding m .
qed

text \<open>
  A failed query with other callers around: the call whose query of the code fails returns
  that error, the nonce stays unset, and the lock is released, or handed to the head of
  the queue when callers are queued.
\<close>

lemma failed_query_hands_over:
  assumes "run es (new_system fwd) = Some s" and "int (length (called es)) < 2 ^ 53"
    and "calls s t = AwaitGetCode"
  shows "\<exists>s'. run [CodeReply t (Inl e), Continue t] s = Some s' \<and>
           calls s' t = Returned (Inl e) \<and> nonce s' = None \<and>
           (case waiters (lock s) of
              [] \<Rightarrow> \<not> mLocked (lock s') \<and> waiters (lock s') = []
            | w # ws \<Rightarrow> mLocked (lock s') \<and> waiters (lock s') = ws \<and> calls s' w = Granted)"
proof -
  have "int (length ([] @ called es)) < 2 ^ 53" using assms(2) by simp
  then have "consistent ([] @ called es) (0 + bad_replies es) s"
    by (rule consistent_run [OF consistent_new assms(1)])
  then have c: "consistent (called es) (bad_replies es) s" by simp
  have cs: "in_cs AwaitGetCode" by (simp add: in_cs_def)
  from consistent_holder [OF c assms(3) cs] obtain D outs
    where st: "struct D [t] outs (called es) (lock s) (calls s)"
      and gd: "good outs [AwaitGetCode] (nonce s) (requests s) (bad_replies es)" by blast
  have L: "mLocked (lock s)" using structD(6) [OF st] by (auto split: if_splits)
  have n: "nonce s = None" by (rule good_code(1) [OF gd])
  from structD(1,2) [OF st] have tw: "t \<notin> set (waiters (lock s))" by auto
  show ?thesis
  proof (cases "waiters (lock s)")
    case Nil
    with assms(3) L n show ?thesis
      by (auto simp: finish_def release_finally_def Lock_release_def)
  next
    case (Cons w ws)
    with tw have "w \<noteq> t" by auto
    with Cons assms(3) L n show ?thesis
      by (auto simp: finish_def release_finally_def Lock_release_def)
  qed
qed

text \<open>
  One caller at a time is a special case of the runs: on an object whose lock is free,
  what \<^verbatim>\<open>getEncodedReplayProtection\<close> computes is what the run of that one call with the
  same answer of the provider leaves.
\<close>

lemma sequential_run:
  assumes "calls s t = Idle" and "lock s = new_Lock"
    and "getEncodedReplayProtection t env s = (out, s1)"
  shows "\<exists>es r. out = Settled r \<and> called es = [t] \<and>
           set es \<subseteq> {Call t, Continue t, CodeReply t (getCode env (forwarderAddress s))} \<and>
           run es s = Some (s1\<lparr>calls := (calls s)(t := Returned r)\<rparr>)"
proof -
  let ?a = "forwarderAddress s"
  from assms(2,3) have out: "out = Settled (encode (fst (getNonce env s)))"
    and s1: "s1 = snd (getNonce env s)"
    by (simp_all add: getEncodedReplayProtection_free)
  have l: "\<not> mLocked (lock s)" "waiters (lock s) = []"
    using assms(2) by (simp_all add: new_Lock_def)
  have lk: "(lock s)\<lparr>mLocked := True, mLocked := False\<rparr> = lock s"
    using assms(2) by (simp add: new_Lock_def)
  show ?thesis
  proof (cases "nonce s")
    case (Some v)
    have "run [Call t, Continue t, Continue t] s
        = Some (s1\<lparr>calls := (calls s)(t := Returned (abi_encode_uint (number_succ v)))\<rparr>)"
      using assms(1) l Some lk s1
      by (simp add: Lock_acquire_def finish_def release_finally_def Lock_release_def
          getNonce_def)
    moreover have "out = Settled (abi_encode_uint (number_succ v))"
      using out Some by (simp add: getNonce_def)
    ultimately show ?thesis
      by (intro exI [of _ "[Call t, Continue t, Continue t]"]
          exI [of _ "abi_encode_uint (number_succ v)"]) simp
  next
    case None
    let ?es = "[Call t, Continue t, CodeReply t (getCode env ?a), Continue t]"
    have "run ?es s
        = Some (s1\<lparr>calls := (calls s)(t := Returned (encode (fst (getNonce env s))))\<rparr>)"
      using assms(1) l None lk s1
      by (cases "getCode env ?a")
         (simp_all add: Lock_acquire_def finish_def release_finally_def Lock_release_def
          getNonce_def abi_encode_uint_def)
    with out show ?thesis
      by (intro exI [of _ ?es] exI [of _ "encode (fst (getNonce env s))"]) simp
  qed
qed

text \<open>
  The steps of the run that serves every call: the \<open>K\<close> calls are issued, the first one
  is told that there is no code and returns \<open>0\<close>, and each of the others increments the
  stored nonce.
\<close>

lemma run_append:
  "run (xs @ ys) s = (case run xs s of None \<Rightarrow> None | Some s' \<Rightarrow> run ys s')"
  by (induction xs arbitrary: s) (auto split: option.splits)

lemma run_single: "step e s = Some s' \<Longrightarrow> run [e] s = Some s'"
  by simp

lemma run_calls:
  "\<exists>s. run (map Call [0..<Suc K]) (new_system fwd) = Some s \<and>
       lock s = \<lparr>waiters = [Suc 0..<Suc K], mLocked = True\<rparr> \<and> nonce s = None \<and>
       requests s = [] \<and>
       (\<forall>t. calls s t = (if t = 0 then Granted else if t < Suc K then Queued else Idle))"
proof (induction K)
  case 0
  show ?case
    by (simp add: new_system_def new_Lock_def Lock_acquire_def)
next
  case (Suc K)
  then obtain s where r: "run (map Call [0..<Suc K]) (new_system fwd) = Some s"
    and l: "lock s = \<lparr>waiters = [Suc 0..<Suc K], mLocked = True\<rparr>" and n: "nonce s = None"
    and q: "requests s = []"
    and c: "\<forall>t. calls s t = (if t = 0 then Granted else if t < Suc K then Queued else Idle)"
    by blast
  let ?s' = "s\<lparr>lock := (lock s)\<lparr>waiters := waiters (lock s) @ [Suc K]\<rparr>,
                calls := (calls s)(Suc K := Queued)\<rparr>"
  have st: "step (Call (Suc K)) s = Some ?s'"
    using l c by (simp add: Lock_acquire_def)
  have e: "map Call [0..<Suc (Suc K)] = map Call [0..<Suc K] @ [Call (Suc K)]" by simp
  have "run (map Call [0..<Suc K] @ [Call (Suc K)]) (new_system fwd) = Some ?s'"
    by (simp only: run_append r option.case run_single [OF st])
  then have "run (map Call [0..<Suc (Suc K)]) (new_system fwd) = Some ?s'"
    unfolding e .
  moreover have "lock ?s' = \<lparr>waiters = [Suc 0..<Suc (Suc K)], mLocked = True\<rparr>"
    using l by simp
  moreover have "\<forall>t. calls ?s' t
      = (if t = 0 then Granted else if t < Suc (Suc K) then Queued else Idle)"
    using c by auto
  ultimately show ?case using n q by (intro exI [of _ ?s']) simp
qed

lemma run_first:
  assumes "lock s = \<lparr>waiters = [Suc 0..<Suc K], mLocked = True\<rparr>" and "nonce s = None"
    and "requests s = []"
    and "\<forall>t. calls s t = (if t = 0 then Granted else if t < Suc K then Queued else Idle)"
  shows "\<exists>s'. run [Continue 0, CodeReply 0 (Inr ''0x''), Continue 0] s = Some s' \<and>
            served (Suc K) (Suc 0) s'"
proof (cases K)
  case 0
  with assms show ?thesis
    by (simp add: served_def finish_def release_finally_def Lock_release_def
        abi_encode_uint_def)
next
  case (Suc K')
  then have w: "[Suc 0..<Suc K] = Suc 0 # [Suc (Suc 0)..<Suc K]" by (simp add: upt_conv_Cons)
  from assms(1) w have l: "lock s = \<lparr>waiters = Suc 0 # [Suc (Suc 0)..<Suc K], mLocked = True\<rparr>"
    by simp
  from l assms(2,3,4) Suc show ?thesis
    by (simp add: served_def finish_def release_finally_def Lock_release_def
        abi_encode_uint_def)
qed

lemma run_next:
  assumes "served K j s" and "0 < j" and "j < K" and "int K < 2 ^ 53"
  shows "\<exists>s'. run [Continue j, Continue j] s = Some s' \<and> served K (Suc j) s'"
proof -
  from assms have l: "lock s = \<lparr>waiters = [Suc j..<K], mLocked = True\<rparr>"
    and nc: "nonce s = Some (int j - 1)" and q: "requests s = [GetCode]"
    and c: "\<forall>t. calls s t =
         (if t < j then Returned (Inr (Abi_uint (int t)))
          else if t = j \<and> j < K then Granted
          else if t < K then Queued else Idle)"
    by (simp_all add: served_def)
  from c assms(3) have cj: "calls s j = Granted" by simp
  have "\<bar>int j - 1\<bar> < 2 ^ 53" using assms(2,3,4) by simp
  then have ns: "number_succ (int j - 1) = int j" by (simp add: number_succ_safe)
  have "int j < 2 ^ 53 - 1" using assms(3,4) by simp
  then have en: "abi_encode_uint (int j) = Inr (Abi_uint (int j))"
    by (simp add: abi_encode_uint_accepts)
  show ?thesis
  proof (cases "Suc j < K")
    case True
    then have w: "[Suc j..<K] = Suc j # [Suc (Suc j)..<K]" by (simp add: upt_conv_Cons)
    from l w have l': "lock s = \<lparr>waiters = Suc j # [Suc (Suc j)..<K], mLocked = True\<rparr>"
      by simp
    from l' nc q c cj True assms(3) ns en show ?thesis
      by (auto simp: served_def finish_def release_finally_def Lock_release_def)
  next
    case False
    with assms(3) have K: "K = Suc j" by simp
    with l nc q c cj ns en show ?thesis
      by (auto simp: served_def finish_def release_finally_def Lock_release_def)
  qed
qed

lemma run_rest:
  assumes "served K j s" and "0 < j" and "j \<le> K" and "int K < 2 ^ 53"
  shows "\<exists>s'. run (concat (map (\<lambda>i. [Continue i, Continue i]) [j..<K])) s = Some s' \<and>
            served K K s'"
  using assms(1,2,3)
proof (induction "K - j" arbitrary: j s)
  case 0
  then show ?case by simp
next
  case (Suc d)
  then have jK: "j < K" by simp
  from run_next [OF Suc.prems(1,2) jK assms(4)] obtain s1
    where r1: "run [Continue j, Continue j] s = Some s1" and s1: "served K (Suc j) s1"
    by blast
  have "d = K - Suc j" using Suc.hyps(2) by simp
  from Suc.hyps(1) [OF this s1] jK obtain s'
    where r2: "run (concat (map (\<lambda>i. [Continue i, Continue i]) [Suc j..<K])) s1 = Some s'"
      and s': "served K K s'" by auto
  have "[j..<K] = j # [Suc j..<K]" using jK by (simp add: upt_conv_Cons)
  then have e: "concat (map (\<lambda>i. [Continue i, Continue i]) [j..<K])
      = [Continue j, Continue j] @ concat (map (\<lambda>i. [Continue i, Continue i]) [Suc j..<K])"
    by simp
  have "run (concat (map (\<lambda>i. [Continue i, Continue i]) [j..<K])) s = Some s'"
    unfolding e by (simp only: run_append r1 option.case r2)
  with s' show ?case by blast
qed

lemma called_map_Call: "called (map Call ts @ es) = ts @ called es"
  by (induction ts) simp_all

lemma called_Continues: "called (concat (map (\<lambda>i. [Continue i, Continue i]) ts)) = []"
  by (induction ts) simp_all

lemma all_calls_complete:
  assumes "0 < K" and "int K < 2 ^ 53"
  shows "\<exists>s. run (schedule K) (new_system fwd) = Some s \<and>
           called (schedule K) = [0..<K] \<and>
           (\<forall>t < K. calls s t = Returned (Inr (Abi_uint (int t)))) \<and>
           requests s = [GetCode]"
proof -
  from assms(1) obtain K' where K: "K = Suc K'" by (cases K) auto
  from run_calls [of K' fwd] obtain s0
    where r0: "run (map Call [0..<K]) (new_system fwd) = Some s0"
      and l: "lock s0 = \<lparr>waiters = [Suc 0..<Suc K'], mLocked = True\<rparr>"
      and n: "nonce s0 = None"
      and q: "requests s0 = []"
      and c: "\<forall>t. calls s0 t = (if t = 0 then Granted else if t < Suc K' then Queued else Idle)"
    unfolding K by blast
  from run_first [OF l n q c] obtain s1
    where r1: "run [Continue 0, CodeReply 0 (Inr ''0x''), Continue 0] s0 = Some s1"
      and s1: "served K (Suc 0) s1"
    unfolding K by blast
  from run_rest [OF s1 _ _ assms(2)] assms(1) obtain s
    where r2: "run (concat (map (\<lambda>i. [Continue i, Continue i]) [Suc 0..<K])) s1 = Some s"
      and s: "served K K s" by auto
  have "run (schedule K) (new_system fwd) = Some s"
    unfolding schedule_def One_nat_def by (simp only: run_append r0 r1 r2 option.case)
  moreover have "called (schedule K) = [0..<K]"
    unfolding schedule_def by (simp add: called_map_Call called_Continues)
  moreover have "\<forall>t < K. calls s t = Returned (Inr (Abi_uint (int t)))"
    using s by (simp add: served_def)
  moreover have "requests s = [GetCode]" using s by (simp add: served_def)
  ultimately show ?thesis by blast
qed

text \<open>
  C1, as stated, fails: two calls are issued before either is continued, and the query of
  the code made by the first one fails.  The first call rejects with that error, the
  second one asks for the code again and returns \<open>0\<close>: the results are not two consecutive
  integers, and the code was requested twice.
\<close>

theorem concurrent_calls_counterexample:
  "\<exists>s. run [Call 0, Call 1, Continue 0,
            CodeReply 0 (Inl (ExternalQueryError ''timeout'')), Continue 0,
            Continue 1, CodeReply 1 (Inr ''0x''), Continue 1] (new_system ''0xf00'') = Some s \<and>
       map (calls s) [0, 1]
         = [Returned (Inl (ExternalQueryError ''timeout'')), Returned (Inr (Abi_uint 0))] \<and>
       requests s = [GetCode, GetCode] \<and>
       \<not> ((\<exists>n0. map (calls s) [0, 1]
                  = map (\<lambda>n. Returned (Inr (Abi_uint n))) (consecutive n0 2)) \<and>
          count_list (requests s) GetCode \<le> 1)"
  by (simp add: new_system_def new_Lock_def Lock_acquire_def finish_def release_finally_def
      Lock_release_def abi_encode_uint_def consecutive_def)

text \<open>
  C1, amended.  On a new object, let \<open>K\<close> calls be issued, \<open>0 < K < 2^53\<close>, and let the
  provider answer every query of the code with \<^verbatim>\<open>"0x"\<close> (no query fails and the account is
  not deployed).  The run in which all \<open>K\<close> calls are issued before any is continued can be
  completed, and then the call number \<open>t\<close> has returned \<open>t\<close> and the code was requested
  once.  In every run, whatever the order of the jobs: the calls that have returned are
  the first ones issued and their results are \<open>0, 1, 2, \<dots>\<close> in the order of issue, no call
  is issued twice, and the code was requested at most once; and when no call can be
  continued and no answer is awaited, all \<open>K\<close> calls have returned, with the results
  \<open>0, 1, \<dots>, K - 1\<close> in the order of issue.
\<close>

theorem concurrent_calls_not_deployed:
  assumes "0 < K" and "int K < 2 ^ 53"
  shows "(\<exists>s. run (schedule K) (new_system fwd) = Some s \<and>
              called (schedule K) = [0..<K] \<and>
              (\<forall>t < K. calls s t = Returned (Inr (Abi_uint (int t)))) \<and>
              requests s = [GetCode]) \<and>
         (\<forall>es s. run es (new_system fwd) = Some s \<and> length (called es) = K \<and>
                 (\<forall>t r. CodeReply t r \<in> set es \<longrightarrow> r = Inr ''0x'') \<longrightarrow>
            (\<exists>m. m \<le> K \<and>
                  map (calls s) (take m (called es))
                    = map (\<lambda>n. Returned (Inr (Abi_uint n))) (consecutive 0 m) \<and>
                  (\<forall>t \<in> set (drop m (called es)). \<forall>r. calls s t \<noteq> Returned r)) \<and>
            distinct (called es) \<and>
            count_list (requests s) GetCode \<le> 1 \<and>
            ((\<forall>h. step (Continue h) s = None \<and> step (CodeReply h (Inr ''0x'')) s = None) \<longrightarrow>
               map (calls s) (called es)
                 = map (\<lambda>n. Returned (Inr (Abi_uint n))) (consecutive 0 K)))"
proof (intro conjI allI impI)
  show "\<exists>s. run (schedule K) (new_system fwd) = Some s \<and>
              called (schedule K) = [0..<K] \<and>
              (\<forall>t < K. calls s t = Returned (Inr (Abi_uint (int t)))) \<and>
              requests s = [GetCode]"
    by (rule all_calls_complete [OF assms])
next
  fix es s
  assume a: "run es (new_system fwd) = Some s \<and> length (called es) = K \<and>
             (\<forall>t r. CodeReply t r \<in> set es \<longrightarrow> r = Inr ''0x'')"
  then have r: "run es (new_system fwd) = Some s" and len: "length (called es) = K"
    and ben: "\<forall>t r. CodeReply t r \<in> set es \<longrightarrow> r = Inr ''0x''" by blast+
  have b: "int (length (called es)) < 2 ^ 53" using len assms(2) by simp
  note p = returned_prefix [OF r ben b]
  from p(1) len show "\<exists>m. m \<le> K \<and>
                  map (calls s) (take m (called es))
                    = map (\<lambda>n. Returned (Inr (Abi_uint n))) (consecutive 0 m) \<and>
                  (\<forall>t \<in> set (drop m (called es)). \<forall>r. calls s t \<noteq> Returned r)"
    by simp
  show "distinct (called es)" by (rule p(2))
  show "count_list (requests s) GetCode \<le> 1" by (rule p(3))
  assume "\<forall>h. step (Continue h) s = None \<and> step (CodeReply h (Inr ''0x'')) s = None"
  from calls_progress [OF r ben b this] len
  show "map (calls s) (called es)
          = map (\<lambda>n. Returned (Inr (Abi_uint n))) (consecutive 0 K)" by simp
qed

theorem concurrent_calls_not_deployed_witness:
  "(\<exists>s. run (schedule 3) (new_system ''0xf00'') = Some s \<and>
        map (calls s) [0, 1, 2]
          = [Returned (Inr (Abi_uint 0)), Returned (Inr (Abi_uint 1)),
             Returned (Inr (Abi_uint 2))] \<and>
        requests s = [GetCode]) \<and>
   (\<exists>s. run [Call 2, Call 0, Continue 2, Call 1, CodeReply 2 (Inr ''0x''), Continue 2,
             Continue 0, Continue 0, Continue 1, Continue 1] (new_system ''0xf00'') = Some s \<and>
        map (calls s) [2, 0, 1]
          = map (\<lambda>n. Returned (Inr (Abi_uint n))) (consecutive 0 3) \<and>
        count_list (requests s) GetCode \<le> 1)"
proof -
  have k: "0 < (3::nat)" "int 3 < 2 ^ 53" by simp_all
  note th = concurrent_calls_not_deployed [OF k, of "''0xf00''"]
  from th obtain s0 where r0: "run (schedule 3) (new_system ''0xf00'') = Some s0"
    and c0: "\<forall>t < 3. calls s0 t = Returned (Inr (Abi_uint (int t)))"
    and q0: "requests s0 = [GetCode]" by blast
  from c0 have "map (calls s0) [0, 1, 2]
          = [Returned (Inr (Abi_uint 0)), Returned (Inr (Abi_uint 1)),
             Returned (Inr (Abi_uint 2))]" by simp
  with r0 q0 have first: "\<exists>s. run (schedule 3) (new_system ''0xf00'') = Some s \<and>
        map (calls s) [0, 1, 2]
          = [Returned (Inr (Abi_uint 0)), Returned (Inr (Abi_uint 1)),
             Returned (Inr (Abi_uint 2))] \<and>
        requests s = [GetCode]" by (intro exI [of _ s0]) simp
  define es where "es = [Call 2, Call 0, Continue 2, Call 1, CodeReply 2 (Inr ''0x''),
             Continue 2, Continue 0, Continue 0, Continue 1, Continue 1]"
  define s where "s = the (run es (new_system ''0xf00''))"
  note ev = new_system_def new_Lock_def Lock_acquire_def Lock_release_def finish_def
    release_finally_def abi_encode_uint_def number_succ_def Let_def
  have r: "run es (new_system ''0xf00'') = Some s"
    unfolding s_def es_def by (simp add: ev)
  have ce: "called es = [2, 0, 1]" unfolding es_def by simp
  have len: "length (called es) = 3" unfolding ce by simp
  have ben: "\<forall>t r. CodeReply t r \<in> set es \<longrightarrow> r = Inr ''0x''"
    unfolding es_def by simp
  have quiet: "\<forall>h. step (Continue h) s = None \<and> step (CodeReply h (Inr ''0x'')) s = None"
    unfolding s_def es_def by (simp add: ev)
  from th r len ben quiet
  have "map (calls s) (called es)
          = map (\<lambda>n. Returned (Inr (Abi_uint n))) (consecutive 0 3)
        \<and> count_list (requests s) GetCode \<le> 1" by blast
  with r have "\<exists>s. run es (new_system ''0xf00'') = Some s \<and>
        map (calls s) [2, 0, 1]
          = map (\<lambda>n. Returned (Inr (Abi_uint n))) (consecutive 0 3) \<and>
        count_list (requests s) GetCode \<le> 1"
    unfolding ce by (intro exI [of _ s]) simp
  with first show ?thesis unfolding es_def by (rule conjI)
qed

end
